theory Spec2Isabelle
  imports Main
begin

section \<open>Python values used by pydyf\<close>

text \<open>
  A \<open>bytes\<close> value is a list of 8-bit characters.  A Python \<open>str\<close> is a list of
  Unicode code points (numbers below \<open>0x110000\<close>, surrogates included, as CPython
  stores them).  \<open>str_of\<close> reads an ASCII literal of the source as such a \<open>str\<close>.
\<close>

type_synonym bytes = "char list"

type_synonym pystr = "nat list"

definition str_of :: "string \<Rightarrow> pystr" where
  "str_of s = map of_char s"

text \<open>The exceptions the modelled code paths can raise.\<close>

datatype error = NotImplementedError | UnicodeEncodeError | OverflowError | ValueError
  | KeyError | TypeError | AttributeError

fun and_then :: "error + 'a \<Rightarrow> ('a \<Rightarrow> error + 'b) \<Rightarrow> error + 'b" where
  "and_then (Inl e) f = Inl e"
| "and_then (Inr x) f = f x"

text \<open>
  A comprehension or \<open>for\<close> loop that encodes the elements of a sequence from left to
  right and stops at the first exception.
\<close>

fun map_result :: "('a \<Rightarrow> error + 'b) \<Rightarrow> 'a list \<Rightarrow> error + 'b list" where
  "map_result f [] = Inr []"
| "map_result f (x # xs) =
     and_then (f x) (\<lambda>y. and_then (map_result f xs) (\<lambda>ys. Inr (y # ys)))"

lemma map_result_cong [fundef_cong]:
  "xs = ys \<Longrightarrow> (\<And>x. x \<in> set ys \<Longrightarrow> f x = g x) \<Longrightarrow> map_result f xs = map_result g ys"
  by (induction ys arbitrary: xs) auto

text \<open>\<open>sep.join(parts)\<close> and \<open>content.split(b'\n')\<close> on bytes.\<close>

fun join :: "bytes \<Rightarrow> bytes list \<Rightarrow> bytes" where
  "join sep [] = []"
| "join sep [x] = x"
| "join sep (x # y # ys) = x @ sep @ join sep (y # ys)"

fun split :: "char \<Rightarrow> bytes \<Rightarrow> bytes list" where
  "split c [] = [[]]"
| "split c (x # xs) =
     (if x = c then [] # split c xs
      else (case split c xs of [] \<Rightarrow> [[x]] | l # ls \<Rightarrow> (x # l) # ls))"

text \<open>
  \<open>d[k] = v\<close> on an insertion-ordered \<open>dict\<close>: an existing key keeps its place and
  gets the new value, a new key goes to the end.  \<open>getitem\<close> is \<open>d[k]\<close>.
\<close>

fun setitem :: "'k \<Rightarrow> 'v \<Rightarrow> ('k \<times> 'v) list \<Rightarrow> ('k \<times> 'v) list" where
  "setitem k v [] = [(k, v)]"
| "setitem k v ((k', v') # d) = (if k' = k then (k', v) # d else (k', v') # setitem k v d)"

fun getitem :: "('k \<times> 'v) list \<Rightarrow> 'k \<Rightarrow> error + 'v" where
  "getitem [] k = Inl KeyError"
| "getitem ((k', v') # d) k = (if k' = k then Inr v' else getitem d k)"

subsection \<open>Integers as decimal text\<close>

definition digit_char :: "nat \<Rightarrow> char" where
  "digit_char n = ''0123456789abcdef'' ! n"

function decimal :: "nat \<Rightarrow> bytes" where
  "decimal n = (if n < 10 then [digit_char n] else decimal (n div 10) @ [digit_char (n mod 10)])"
  by pat_completeness auto
termination
  by (relation "measure id") auto

declare decimal.simps [simp del]

text \<open>\<open>f'{n:d}'\<close> and \<open>str(n)\<close> for an \<open>int\<close>; \<open>f'{n:0w}'\<close> for a non-negative one.\<close>

definition format_d :: "int \<Rightarrow> bytes" where
  "format_d n = (if n < 0 then ''-'' @ decimal (nat (- n)) else decimal (nat n))"

definition zero_pad :: "nat \<Rightarrow> nat \<Rightarrow> bytes" where
  "zero_pad w n = replicate (w - length (decimal n)) (CHR ''0'') @ decimal n"

subsection \<open>Floats\<close>

text \<open>
  A finite \<open>float\<close> is a dyadic rational \<open>m * 2 ^ e\<close>; every IEEE double is one.  The
  two infinities and NaN are values of the type as well.  \<open>is_integer\<close>, \<open>int(x)\<close> and
  the format \<open>f'{x:f}'\<close> are exact functions of the value: the last one rounds to six
  decimals, ties to even, as CPython's correctly rounded conversion does.
\<close>

datatype pyfloat = Finite int int | PosInf | NegInf | NaN

fun is_integer :: "pyfloat \<Rightarrow> bool" where
  "is_integer (Finite m e) = (if 0 \<le> e then True else 2 ^ nat (- e) dvd m)"
| "is_integer PosInf = False"
| "is_integer NegInf = False"
| "is_integer NaN = False"

fun int_of_float :: "pyfloat \<Rightarrow> error + int" where
  "int_of_float (Finite m e) =
     (if 0 \<le> e then Inr (m * 2 ^ nat e)
      else Inr (sgn m * (\<bar>m\<bar> div 2 ^ nat (- e))))"
| "int_of_float PosInf = Inl OverflowError"
| "int_of_float NegInf = Inl OverflowError"
| "int_of_float NaN = Inl ValueError"

definition round_half_even :: "nat \<Rightarrow> nat \<Rightarrow> nat" where
  "round_half_even n d =
     (let q = n div d; r = n mod d
      in if d < 2 * r \<or> (2 * r = d \<and> odd q) then q + 1 else q)"

definition micro_units :: "int \<Rightarrow> int \<Rightarrow> nat" where
  "micro_units m e =
     (if 0 \<le> e then nat \<bar>m\<bar> * 2 ^ nat e * 1000000
      else round_half_even (nat \<bar>m\<bar> * 1000000) (2 ^ nat (- e)))"

fun format_f :: "pyfloat \<Rightarrow> bytes" where
  "format_f (Finite m e) =
     (let q = micro_units m e
      in (if m < 0 then ''-'' else '''') @ decimal (q div 1000000) @ ''.''
           @ zero_pad 6 (q mod 1000000))"
| "format_f PosInf = ''inf''"
| "format_f NegInf = ''-inf''"
| "format_f NaN = ''nan''"

subsection \<open>Text codecs\<close>

text \<open>
  \<open>s.encode('ascii')\<close> raises on the first code point above 127.
  \<open>s.encode('utf-16-be')\<close> writes a code point of the basic plane as one 16-bit unit,
  a higher one as a surrogate pair, and raises on a surrogate code point (the strict
  error handler).  \<open>b.hex()\<close> writes two lowercase digits per byte.
\<close>

definition encode_ascii :: "pystr \<Rightarrow> error + bytes" where
  "encode_ascii s = (if list_all (\<lambda>c. c < 128) s then Inr (map char_of s) else Inl UnicodeEncodeError)"

definition is_surrogate :: "nat \<Rightarrow> bool" where
  "is_surrogate c = (0xD800 \<le> c \<and> c \<le> 0xDFFF)"

definition unit16 :: "nat \<Rightarrow> bytes" where
  "unit16 u = [char_of (u div 256), char_of (u mod 256)]"

definition utf16be_char :: "nat \<Rightarrow> error + bytes" where
  "utf16be_char c =
     (if is_surrogate c then Inl UnicodeEncodeError
      else if c < 0x10000 then Inr (unit16 c)
      else Inr (unit16 (0xD800 + (c - 0x10000) div 0x400) @ unit16 (0xDC00 + (c - 0x10000) mod 0x400)))"

definition encode_utf16be :: "pystr \<Rightarrow> error + bytes" where
  "encode_utf16be s = and_then (map_result utf16be_char s) (\<lambda>us. Inr (concat us))"

definition BOM_UTF16_BE :: bytes where
  "BOM_UTF16_BE = [char_of (0xFE :: nat), char_of (0xFF :: nat)]"

definition hex_byte :: "char \<Rightarrow> bytes" where
  "hex_byte c = [digit_char (of_char c div 16), digit_char (of_char c mod 16)]"

definition hex :: "bytes \<Rightarrow> bytes" where
  "hex b = concat (map hex_byte b)"

section \<open>The object model\<close>

text \<open>
  The attributes every \<open>Object\<close> carries.  \<open>generation\<close> is documented as non-negative
  and \<open>free\<close> as one of \<open>'n'\<close> (in use) and \<open>'f'\<close> (free); \<open>number\<close> is \<open>None\<close> until the
  object is added to a document.
\<close>

datatype free_flag = InUse | Free

fun flag_char :: "free_flag \<Rightarrow> bytes" where
  "flag_char InUse = ''n''"
| "flag_char Free = ''f''"

record header =
  number :: "nat option"
  offset :: nat
  generation :: nat
  free :: free_flag

definition new_header :: header where
  "new_header = \<lparr>number = None, offset = 0, generation = 0, free = InUse\<rparr>"

text \<open>
  The values \<open>_to_bytes\<close> dispatches on, and the classes of the module.  Dictionary keys
  are \<open>str\<close> names.  A \<open>Stream\<close> holds its token list, its \<open>extra\<close> mapping (a plain
  \<open>dict\<close>) and the \<open>compress\<close> switch; a \<open>String\<close> holds a \<open>str\<close>.
\<close>

datatype item = Bytes bytes | Obj pdf_object | PyFloat pyfloat | PyInt int | PyStr pystr
and pdf_object = Object header
  | Dictionary header "(pystr \<times> item) list"
  | Stream header "item list" "(pystr \<times> item) list" bool
  | String header pystr
  | Array header "item list"

fun hdr :: "pdf_object \<Rightarrow> header" where
  "hdr (Object h) = h"
| "hdr (Dictionary h d) = h"
| "hdr (Stream h toks extra c) = h"
| "hdr (String h s) = h"
| "hdr (Array h xs) = h"

fun map_hdr :: "(header \<Rightarrow> header) \<Rightarrow> pdf_object \<Rightarrow> pdf_object" where
  "map_hdr f (Object h) = Object (f h)"
| "map_hdr f (Dictionary h d) = Dictionary (f h) d"
| "map_hdr f (Stream h toks extra c) = Stream (f h) toks extra c"
| "map_hdr f (String h s) = String (f h) s"
| "map_hdr f (Array h xs) = Array (f h) xs"

subsection \<open>Encoding\<close>

text \<open>
  The measure behind the recursion of the encoder: the sizes of the values of a mapping.
  Storing an \<open>int\<close> or a \<open>str\<close> under a key does not raise it.
\<close>

definition values_size :: "(pystr \<times> item) list \<Rightarrow> nat" where
  "values_size d = sum_list (map (\<lambda>kv. size (snd kv)) d)"

lemma values_size_member: "(k, v) \<in> set d \<Longrightarrow> size v \<le> values_size d"
  unfolding values_size_def by (induction d) auto

lemma values_size_setitem: "values_size (setitem k v d) \<le> values_size d + size v"
  unfolding values_size_def by (induction d) auto

lemma values_size_le: "values_size d \<le> size_list (size_prod (\<lambda>x. 0) size) d"
  unfolding values_size_def by (induction d) auto

lemma size_member: "x \<in> set xs \<Longrightarrow> size x < Suc (size_list size xs)"
  by (induction xs) auto

text \<open>
  \<open>_to_bytes\<close> and the \<open>data\<close> property of each class.  \<open>z\<close> stands for the zlib
  compressor (\<open>compressobj.compress(b) + compressobj.flush()\<close>), which is not part of
  the module.  \<open>Dictionary_data\<close> is \<open>Dictionary.data\<close> as a function of the entries.
\<close>

function to_bytes :: "(bytes \<Rightarrow> bytes) \<Rightarrow> item \<Rightarrow> error + bytes"
  and data :: "(bytes \<Rightarrow> bytes) \<Rightarrow> pdf_object \<Rightarrow> error + bytes"
  and Dictionary_data :: "(bytes \<Rightarrow> bytes) \<Rightarrow> (pystr \<times> item) list \<Rightarrow> error + bytes"
where
  "to_bytes z (Bytes b) = Inr b"
| "to_bytes z (Obj ob) = data z ob"
| "to_bytes z (PyFloat x) =
     (if is_integer x then and_then (int_of_float x) (\<lambda>n. Inr (format_d n))
      else Inr (format_f x))"
| "to_bytes z (PyInt n) = Inr (format_d n)"
| "to_bytes z (PyStr s) = encode_ascii s"
| "data z (Object h) = Inl NotImplementedError"
| "data z (Dictionary h d) = Dictionary_data z d"
| "data z (Stream h toks extra c) =
     and_then (map_result (to_bytes z) toks) (\<lambda>bs.
       let stream = join ''\<newline>'' bs;
           extra1 = (if c then setitem (str_of ''Filter'') (PyStr (str_of ''/FlateDecode'')) extra
                     else extra);
           stream1 = (if c then z stream else stream);
           extra2 = setitem (str_of ''Length'') (PyInt (int (length stream1))) extra1
       in and_then (Dictionary_data z extra2) (\<lambda>eb.
            Inr (join ''\<newline>'' [eb, ''stream'', stream1, ''endstream''])))"
| "data z (String h s) =
     (case to_bytes z (PyStr s) of
        Inr b \<Rightarrow> Inr (''('' @ b @ '')'')
      | Inl UnicodeEncodeError \<Rightarrow>
          and_then (encode_utf16be s) (\<lambda>u. Inr (''<'' @ hex (BOM_UTF16_BE @ u) @ ''>''))
      | Inl e \<Rightarrow> Inl e)"
| "data z (Array h xs) =
     and_then (map_result (to_bytes z) xs) (\<lambda>bs. Inr (join '' '' (''['' # bs @ ['']''])))"
| "Dictionary_data z d =
     and_then (map_result (\<lambda>(k, v).
        and_then (to_bytes z (PyStr k)) (\<lambda>kb.
        and_then (to_bytes z v) (\<lambda>vb. Inr (''/'' @ kb @ '' '' @ vb)))) d)
       (\<lambda>ls. Inr (join ''\<newline>'' (''<<'' # ls @ [''>>''])))"
  by pat_completeness auto
termination
proof (relation "measure (\<lambda>s. case s of
     Inl (z, x) \<Rightarrow> 2 * size x
   | Inr (Inl (z, ob)) \<Rightarrow> 2 * size ob + 1
   | Inr (Inr (z, d)) \<Rightarrow> 2 * values_size d + 1)", goal_cases)
  case 1
  show ?case by simp
next
  case (2 z ob)
  show ?case by simp
next
  case (3 z h d)
  show ?case using values_size_le [of d] by simp
next
  case (4 z h toks extra c x)
  then show ?case using size_member [of x toks] by simp
next
  case (5 z h toks extra c bs stream extra1 stream1 extra2)
  have "values_size extra2 \<le> values_size extra"
    using values_size_setitem [of "str_of ''Length''" "PyInt (int (length stream1))" extra1]
      values_size_setitem [of "str_of ''Filter''" "PyStr (str_of ''/FlateDecode'')" extra]
    by (simp add: 5 split: if_splits)
  then show ?case using values_size_le [of extra] by simp
next
  case (6 z h s)
  show ?case by simp
next
  case (7 z h xs x)
  then show ?case using size_member [of x xs] by simp
next
  case (8 z d kv k v)
  show ?case by simp
next
  case (9 z d kv k v kb)
  then show ?case using values_size_member [of k v d] by simp
qed

text \<open>\<open>Object.indirect\<close> and \<open>Object.reference\<close>; \<open>str(self.number)\<close> is \<open>'None'\<close> before registration.\<close>

fun str_optional :: "nat option \<Rightarrow> bytes" where
  "str_optional None = ''None''"
| "str_optional (Some n) = decimal n"

definition object_id :: "pdf_object \<Rightarrow> bytes" where
  "object_id ob = str_optional (number (hdr ob)) @ '' '' @ decimal (generation (hdr ob))"

definition indirect :: "(bytes \<Rightarrow> bytes) \<Rightarrow> pdf_object \<Rightarrow> error + bytes" where
  "indirect z ob =
     and_then (data z ob) (\<lambda>d. Inr (join ''\<newline>'' [object_id ob @ '' obj'', d, ''endobj'']))"

definition reference :: "pdf_object \<Rightarrow> bytes" where
  "reference ob = object_id ob @ '' R''"

section \<open>The document\<close>

text \<open>
  Python holds objects by reference: \<open>self.objects\<close> is a list of references, and
  \<open>self.pages\<close>, \<open>self.info\<close> and \<open>self.catalog\<close> refer to objects of that list.  The
  state therefore carries the objects the program has created (\<open>heap\<close>, an object's
  address is its index there) next to the attributes of the \<open>PDF\<close> instance, which hold
  addresses.  An assignment to an attribute of an object changes the heap, and is seen
  through every reference to the object: an object that the list refers to twice is one
  object, with one number and one offset.  A value stored in a mapping or in an array
  stands in its place there; the encoder reads its contents only.
\<close>

record pdf =
  heap :: "pdf_object list"
  objects :: "nat list"
  pages :: nat
  info :: nat
  catalog :: nat
  current_position :: nat
  xref_position :: "nat option"

text \<open>The objects of \<open>self.objects\<close>, in the order of the list.\<close>

definition object_list :: "pdf \<Rightarrow> pdf_object list" where
  "object_list p = map (\<lambda>a. heap p ! a) (objects p)"

text \<open>Creating an object (a constructor call): the new object's address is returned.\<close>

definition new_object :: "pdf \<Rightarrow> pdf_object \<Rightarrow> pdf \<times> nat" where
  "new_object p ob = (p\<lparr>heap := heap p @ [ob]\<rparr>, length (heap p))"

text \<open>
  \<open>add_object\<close>: the number is assigned to the object referred to, then the reference is
  appended.
\<close>

definition add_object :: "pdf \<Rightarrow> nat \<Rightarrow> pdf" where
  "add_object p a =
     p\<lparr>heap := (heap p)[a := map_hdr (\<lambda>h. h\<lparr>number := Some (length (objects p))\<rparr>) (heap p ! a)],
       objects := objects p @ [a]\<rparr>"

definition zero_object :: pdf_object where
  "zero_object = Object (new_header\<lparr>generation := 65535, free := Free\<rparr>)"

text \<open>
  \<open>PDF.__init__\<close>, in a program that has created no object before.  The attributes
  \<open>pages\<close>, \<open>info\<close> and \<open>catalog\<close> do not exist before their assignment; the record
  gives them the address 0 until then, and nothing reads them before.
\<close>

definition PDF_init :: pdf where
  "PDF_init =
     (let p0 = \<lparr>heap = [], objects = [], pages = 0, info = 0, catalog = 0,
                current_position = 0, xref_position = None\<rparr>;
          (p1, zero) = new_object p0 zero_object;
          p2 = add_object p1 zero;
          (p3, a) = new_object p2 (Dictionary new_header
                 [(str_of ''Type'', PyStr (str_of ''/Pages'')),
                  (str_of ''Kids'', Obj (Array new_header [])),
                  (str_of ''Count'', PyInt 0)]);
          p4 = add_object (p3\<lparr>pages := a\<rparr>) a;
          (p5, b) = new_object p4 (Dictionary new_header []);
          p6 = add_object (p5\<lparr>info := b\<rparr>) b;
          (p7, c) = new_object p6 (Dictionary new_header
                 [(str_of ''Type'', PyStr (str_of ''/Catalog'')),
                  (str_of ''Pages'', Bytes (reference (heap p6 ! pages p6)))]);
          p8 = add_object (p7\<lparr>catalog := c\<rparr>) c
      in p8\<lparr>current_position := 0, xref_position := None\<rparr>)"

text \<open>
  \<open>count + 1\<close> for the value stored under \<open>Count\<close>.  The sum of a float and one is the
  double nearest to the exact sum, ties going to the even significand (53 bits), and an
  infinity beyond the range of doubles; \<open>round_to_double m e\<close> rounds \<open>m * 2 ^ e\<close> so.
  (The sum of a double and one is never subnormal.)
\<close>

function bit_length :: "nat \<Rightarrow> nat" where
  "bit_length n = (if n = 0 then 0 else Suc (bit_length (n div 2)))"
  by pat_completeness auto
termination
  by (relation "measure (\<lambda>n. n)") auto

declare bit_length.simps [simp del]

definition round_to_double :: "int \<Rightarrow> int \<Rightarrow> pyfloat" where
  "round_to_double m e =
     (let n = nat \<bar>m\<bar>;
          k = bit_length n - 53;
          q = round_half_even n (2 ^ k);
          e1 = e + int k
      in if 0 \<le> e1 \<and> (2::nat) ^ 1024 \<le> q * 2 ^ nat e1
         then (if m < 0 then NegInf else PosInf)
         else Finite (sgn m * int q) e1)"

fun plus_one :: "item \<Rightarrow> error + item" where
  "plus_one (PyInt n) = Inr (PyInt (n + 1))"
| "plus_one (PyFloat (Finite m e)) =
     Inr (PyFloat (if 0 \<le> e then round_to_double (m * 2 ^ nat e + 1) 0
                   else round_to_double (m + 2 ^ nat (- e)) e))"
| "plus_one (PyFloat x) = Inr (PyFloat x)"
| "plus_one x = Inl TypeError"

text \<open>
  \<open>add_page\<close>: the three statements in order.  Subscripting a page tree that is not a
  mapping raises \<open>TypeError\<close>, a missing key \<open>KeyError\<close>, and a \<open>Kids\<close> entry without
  \<open>extend\<close> raises \<open>AttributeError\<close>.  The entries are those of the object \<open>self.pages\<close>
  refers to.
\<close>

definition set_pages_entry :: "pdf \<Rightarrow> pystr \<Rightarrow> item \<Rightarrow> error + pdf" where
  "set_pages_entry p k v =
     (case heap p ! pages p of
        Dictionary h d \<Rightarrow> Inr (p\<lparr>heap := (heap p)[pages p := Dictionary h (setitem k v d)]\<rparr>)
      | _ \<Rightarrow> Inl TypeError)"

definition get_pages_entry :: "pdf \<Rightarrow> pystr \<Rightarrow> error + item" where
  "get_pages_entry p k =
     (case heap p ! pages p of
        Dictionary h d \<Rightarrow> getitem d k
      | _ \<Rightarrow> Inl TypeError)"

fun extend :: "item \<Rightarrow> item list \<Rightarrow> error + item" where
  "extend (Obj (Array h xs)) ys = Inr (Obj (Array h (xs @ ys)))"
| "extend x ys = Inl AttributeError"

text \<open>
  \<open>page.number\<close>, read from the page after its registration.  (\<open>None\<close>, the number of
  an object that was never registered, is encoded as the text \<open>None\<close>, as the string is.)
\<close>

definition number_item :: "pdf_object \<Rightarrow> item" where
  "number_item ob =
     (case number (hdr ob) of Some n \<Rightarrow> PyInt (int n) | None \<Rightarrow> PyStr (str_of ''None''))"

definition add_page :: "pdf \<Rightarrow> nat \<Rightarrow> error + pdf" where
  "add_page p page =
     and_then (get_pages_entry p (str_of ''Count'')) (\<lambda>count.
     and_then (plus_one count) (\<lambda>count1.
     and_then (set_pages_entry p (str_of ''Count'') count1) (\<lambda>p1.
       let p2 = add_object p1 page
       in and_then (get_pages_entry p2 (str_of ''Kids'')) (\<lambda>kids.
          and_then (extend kids [number_item (heap p2 ! page), PyInt 0, PyStr (str_of ''R'')])
            (\<lambda>kids1. set_pages_entry p2 (str_of ''Kids'') kids1)))))"

section \<open>The writer\<close>

text \<open>
  The writer's state is the document and the bytes the output sink has received.
  \<open>write_line\<close> is the only function that writes.
\<close>

definition write_line :: "bytes \<Rightarrow> pdf \<times> bytes \<Rightarrow> pdf \<times> bytes" where
  "write_line content s =
     (case s of (p, output) \<Rightarrow>
        (p\<lparr>current_position := current_position p + length content + 1\<rparr>,
         output @ content @ ''\<newline>''))"

definition write_object :: "(bytes \<Rightarrow> bytes) \<Rightarrow> pdf_object \<Rightarrow> pdf \<times> bytes \<Rightarrow> error + pdf \<times> bytes" where
  "write_object z ob s =
     and_then (data z ob) (\<lambda>d. Inr (fold write_line (split (CHR ''\<newline>'') d) s))"

definition binary_marker :: bytes where
  "binary_marker = [CHR ''%'', CHR 0xF0, CHR 0x9F, CHR 0x96, CHR 0xA4]"

definition write_header :: "pdf \<times> bytes \<Rightarrow> pdf \<times> bytes" where
  "write_header s = write_line binary_marker (write_line ''%PDF-1.7'' s)"

text \<open>A \<open>for\<close> loop over the indices of a list whose body may raise.\<close>

fun for_each :: "(nat \<Rightarrow> 's \<Rightarrow> error + 's) \<Rightarrow> nat list \<Rightarrow> 's \<Rightarrow> error + 's" where
  "for_each f [] s = Inr s"
| "for_each f (i # js) s = and_then (f i s) (for_each f js)"

text \<open>
  The body of the loop of \<open>write_body\<close> for the \<open>i\<close>-th reference of the list: the offset
  is assigned to the object referred to, then its indirect form is written.
\<close>

definition write_body_step :: "(bytes \<Rightarrow> bytes) \<Rightarrow> nat \<Rightarrow> pdf \<times> bytes \<Rightarrow> error + pdf \<times> bytes" where
  "write_body_step z i s =
     (case s of (p, output) \<Rightarrow>
        let a = objects p ! i
        in if free (hdr (heap p ! a)) = Free then Inr s
           else let p1 = p\<lparr>heap := (heap p)[a := map_hdr (\<lambda>h. h\<lparr>offset := current_position p\<rparr>) (heap p ! a)]\<rparr>
                in and_then (indirect z (heap p1 ! a)) (\<lambda>b. Inr (write_line b (p1, output))))"

definition write_body :: "(bytes \<Rightarrow> bytes) \<Rightarrow> pdf \<times> bytes \<Rightarrow> error + pdf \<times> bytes" where
  "write_body z s = for_each (write_body_step z) [0..<length (objects (fst s))] s"

definition cross_reference_line :: "pdf_object \<Rightarrow> bytes" where
  "cross_reference_line ob =
     zero_pad 10 (offset (hdr ob)) @ '' '' @ zero_pad 5 (generation (hdr ob)) @ '' ''
       @ flag_char (free (hdr ob)) @ '' ''"

definition write_cross_reference_table :: "pdf \<times> bytes \<Rightarrow> pdf \<times> bytes" where
  "write_cross_reference_table s =
     (case s of (p, output) \<Rightarrow>
        let s1 = write_line ''xref'' (p\<lparr>xref_position := Some (current_position p)\<rparr>, output);
            s2 = write_line (''0 '' @ decimal (length (objects p))) s1
        in fold (\<lambda>ob. write_line (cross_reference_line ob)) (object_list p) s2)"

definition trailer_dictionary :: "pdf \<Rightarrow> pdf_object" where
  "trailer_dictionary p =
     Dictionary new_header
       [(str_of ''Size'', PyInt (int (length (objects p)))),
        (str_of ''Root'', Bytes (reference (heap p ! catalog p))),
        (str_of ''Info'', Bytes (reference (heap p ! info p)))]"

definition write_trailer :: "(bytes \<Rightarrow> bytes) \<Rightarrow> pdf \<times> bytes \<Rightarrow> error + pdf \<times> bytes" where
  "write_trailer z s =
     (let s1 = write_line ''trailer'' s
      in and_then (write_object z (trailer_dictionary (fst s1)) s1) (\<lambda>s2.
           let s3 = write_line ''startxref'' s2;
               s4 = write_line (str_optional (xref_position (fst s3))) s3
           in Inr (write_line ''%%EOF'' s4)))"

text \<open>\<open>PDF.write\<close> on a sink that is empty before the call.\<close>

definition write_pdf :: "(bytes \<Rightarrow> bytes) \<Rightarrow> pdf \<Rightarrow> error + pdf \<times> bytes" where
  "write_pdf z p =
     and_then (write_body z (write_header (p, []))) (\<lambda>s.
       write_trailer z (write_cross_reference_table s))"

section \<open>Stream.data on a store\<close>

text \<open>
  To state what \<open>Stream.data\<close> leaves unchanged, the mutable containers a \<open>Stream\<close>
  refers to are put in a store: a list of cells, addressed by index.  A \<open>Stream\<close>
  instance holds the address of its token list (\<open>self.stream\<close>), the address of its
  extra mapping (\<open>self.extra\<close>) and the \<open>compress\<close> switch.  Creating a container
  appends a cell; \<open>d[k] = v\<close> replaces the cell at the address of \<open>d\<close>.  An address that
  holds no container of the expected kind is not a state of the program; reading it
  is an \<open>AttributeError\<close> here.
\<close>

datatype cell = MappingCell "(pystr \<times> item) list" | ListCell "item list"

type_synonym store = "cell list"

record stream_instance =
  stream_at :: nat
  extra_at :: nat
  compress :: bool

definition allocate :: "store \<Rightarrow> cell \<Rightarrow> store \<times> nat" where
  "allocate st c = (st @ [c], length st)"

definition load_mapping :: "store \<Rightarrow> nat \<Rightarrow> error + (pystr \<times> item) list" where
  "load_mapping st a =
     (if a < length st then (case st ! a of MappingCell d \<Rightarrow> Inr d | ListCell xs \<Rightarrow> Inl AttributeError)
      else Inl AttributeError)"

definition load_list :: "store \<Rightarrow> nat \<Rightarrow> error + item list" where
  "load_list st a =
     (if a < length st then (case st ! a of ListCell xs \<Rightarrow> Inr xs | MappingCell d \<Rightarrow> Inl AttributeError)
      else Inl AttributeError)"

definition store_setitem :: "store \<Rightarrow> nat \<Rightarrow> pystr \<Rightarrow> item \<Rightarrow> error + store" where
  "store_setitem st a k v =
     and_then (load_mapping st a) (\<lambda>d. Inr (st[a := MappingCell (setitem k v d)]))"

text \<open>
  \<open>Stream.data\<close>, statement by statement: the tokens are read and encoded;
  \<open>self.extra.copy()\<close> makes a new mapping and \<open>Dictionary(...)\<close> another one from it,
  which the local name \<open>extra\<close> refers to; the two assignments store into that one; its
  \<open>data\<close> is read.  The result is the bytes and the store after the call.
\<close>

definition Stream_data_store ::
  "(bytes \<Rightarrow> bytes) \<Rightarrow> store \<Rightarrow> stream_instance \<Rightarrow> error + bytes \<times> store" where
  "Stream_data_store z st s =
     and_then (load_list st (stream_at s)) (\<lambda>toks.
     and_then (map_result (to_bytes z) toks) (\<lambda>bs.
     and_then (load_mapping st (extra_at s)) (\<lambda>d.
       let stream = join ''\<newline>'' bs;
           (st1, copy) = allocate st (MappingCell d)
       in and_then (load_mapping st1 copy) (\<lambda>d1.
       let (st2, extra) = allocate st1 (MappingCell d1)
       in and_then (if compress s
                    then store_setitem st2 extra (str_of ''Filter'') (PyStr (str_of ''/FlateDecode''))
                    else Inr st2) (\<lambda>st3.
       let stream1 = (if compress s then z stream else stream)
       in and_then (store_setitem st3 extra (str_of ''Length'') (PyInt (int (length stream1)))) (\<lambda>st4.
          and_then (load_mapping st4 extra) (\<lambda>e.
          and_then (Dictionary_data z e) (\<lambda>eb.
            Inr (join ''\<newline>'' [eb, ''stream'', stream1, ''endstream''], st4)))))))))"

section \<open>Predicates of the statements\<close>

text \<open>
  Shapes of encoded numbers: a non-empty run of decimal digits; an integer (digits after
  an optional minus sign); a fixed-point number (an integer part, a point and a
  fractional part, after an optional minus sign).
\<close>

definition is_digit :: "char \<Rightarrow> bool" where
  "is_digit c = (c \<in> set ''0123456789'')"

definition decimal_digits :: "bytes \<Rightarrow> bool" where
  "decimal_digits b = (b \<noteq> [] \<and> list_all is_digit b)"

fun strip_sign :: "bytes \<Rightarrow> bytes" where
  "strip_sign [] = []"
| "strip_sign (c # b) = (if c = CHR ''-'' then b else c # b)"

definition integer_text :: "bytes \<Rightarrow> bool" where
  "integer_text b = decimal_digits (strip_sign b)"

definition fixed_point_text :: "bytes \<Rightarrow> bool" where
  "fixed_point_text b =
     (let u = strip_sign b;
          ip = takeWhile (\<lambda>c. c \<noteq> CHR ''.'') u;
          fp = drop (length ip + 1) u
      in decimal_digits ip \<and> length ip < length u \<and> decimal_digits fp)"

text \<open>
  The encoded key and the encoded value of a dictionary entry, and the line they make.
\<close>

definition entry_encoding :: "(bytes \<Rightarrow> bytes) \<Rightarrow> pystr \<times> item \<Rightarrow> bytes \<times> bytes \<Rightarrow> bool" where
  "entry_encoding z kv enc =
     (to_bytes z (PyStr (fst kv)) = Inr (fst enc) \<and> to_bytes z (snd kv) = Inr (snd enc))"

definition entry_line :: "bytes \<times> bytes \<Rightarrow> bytes" where
  "entry_line enc = ''/'' @ fst enc @ '' '' @ snd enc"

text \<open>A lowercase hexadecimal digit.\<close>

definition is_lower_hex :: "char \<Rightarrow> bool" where
  "is_lower_hex c = (c \<in> set ''0123456789abcdef'')"

text \<open>
  Every reference of the list refers to an object that exists.  Every object of the list
  carries its index as its number.  The documents a caller can build from the fresh one
  by creating objects and by registering, with \<open>add_object\<close> or \<open>add_page\<close>, an object
  that is not yet in the list.
\<close>

definition valid_references :: "pdf \<Rightarrow> bool" where
  "valid_references p = list_all (\<lambda>a. a < length (heap p)) (objects p)"

definition numbers :: "pdf \<Rightarrow> nat option list" where
  "numbers p = map (\<lambda>ob. number (hdr ob)) (object_list p)"

definition numbered :: "pdf \<Rightarrow> bool" where
  "numbered p = (numbers p = map Some [0..<length (objects p)])"

inductive built :: "pdf \<Rightarrow> bool" where
  built_init: "built PDF_init"
| built_new: "built p \<Longrightarrow> built (fst (new_object p ob))"
| built_object: "built p \<Longrightarrow> a < length (heap p) \<Longrightarrow> a \<notin> set (objects p) \<Longrightarrow> built (add_object p a)"
| built_page: "built p \<Longrightarrow> a < length (heap p) \<Longrightarrow> a \<notin> set (objects p) \<Longrightarrow> add_page p a = Inr p1
     \<Longrightarrow> built p1"

text \<open>One object, created after the fresh document, registered twice.\<close>

definition registered_twice :: pdf where
  "registered_twice =
     (let (p, a) = new_object PDF_init (Dictionary new_header [])
      in add_object (add_object p a) a)"

text \<open>A page whose generation the caller has set to 2 before adding it.\<close>

definition page_of_generation_two :: pdf_object where
  "page_of_generation_two = Dictionary (new_header\<lparr>generation := 2\<rparr>) []"

text \<open>The fresh document after that page has been created and added.\<close>

definition with_page_of_generation_two :: "error + pdf" where
  "with_page_of_generation_two =
     (let (p, a) = new_object PDF_init page_of_generation_two in add_page p a)"

text \<open>
  The bytes a sequence of lines makes in the output, and the statement that the bytes
  \<open>b\<close> stand in \<open>out\<close> from position \<open>k\<close> on.
\<close>

definition lines_bytes :: "bytes list \<Rightarrow> bytes" where
  "lines_bytes ls = concat (map (\<lambda>l. l @ ''\<newline>'') ls)"

definition begins_at :: "bytes \<Rightarrow> nat \<Rightarrow> bytes \<Rightarrow> bool" where
  "begins_at out k b = (k + length b \<le> length out \<and> take (length b) (drop k out) = b)"

text \<open>Two heaps whose objects differ in their offsets at most.\<close>

definition same_but_offsets :: "pdf_object list \<Rightarrow> pdf_object list \<Rightarrow> bool" where
  "same_but_offsets H H1 =
     (length H1 = length H \<and> (\<forall>a. \<exists>k. H1 ! a = map_hdr (\<lambda>h. h\<lparr>offset := k\<rparr>) (H ! a)))"

text \<open>The cross-reference section of a document: the two head lines and one row per object.\<close>

definition xref_section :: "pdf \<Rightarrow> bytes" where
  "xref_section p =
     lines_bytes (''xref'' # (''0 '' @ decimal (length (objects p)))
        # map cross_reference_line (object_list p))"

text \<open>
  The fresh document after one call of \<open>write_pdf\<close> and after a second one, with the
  bytes each call writes (the compressor is not used).
\<close>

definition after_first_write :: pdf where
  "after_first_write =
     \<lparr>heap =
        [Object \<lparr>number = Some 0, offset = 0, generation = 65535, free = Free\<rparr>,
         Dictionary \<lparr>number = Some 1, offset = 15, generation = 0, free = InUse\<rparr>
          [(str_of ''Type'', PyStr (str_of ''/Pages'')),
           (str_of ''Kids'', Obj (Array new_header [])),
           (str_of ''Count'', PyInt 0)],
         Dictionary \<lparr>number = Some 2, offset = 68, generation = 0, free = InUse\<rparr> [],
         Dictionary \<lparr>number = Some 3, offset = 89, generation = 0, free = InUse\<rparr>
          [(str_of ''Type'', PyStr (str_of ''/Catalog'')),
           (str_of ''Pages'', Bytes ''1 0 R'')]],
      objects = [0, 1, 2, 3], pages = 1, info = 2, catalog = 3,
      current_position = 293, xref_position = Some 138\<rparr>"

definition first_output :: bytes where
  "first_output =
     ''%PDF-1.7\<newline>'' @ binary_marker @
       ''\<newline>1 0 obj\<newline><<\<newline>/Type /Pages\<newline>'' @
       ''/Kids [ ]\<newline>/Count 0\<newline>>>\<newline>endobj\<newline>'' @
       ''2 0 obj\<newline><<\<newline>>>\<newline>endobj\<newline>'' @
       ''3 0 obj\<newline><<\<newline>/Type /Catalog\<newline>'' @
       ''/Pages 1 0 R\<newline>>>\<newline>endobj\<newline>xref\<newline>'' @
       ''0 4\<newline>0000000000 65535 f \<newline>'' @
       ''0000000015 00000 n \<newline>0000000068 00000 n \<newline>'' @
       ''0000000089 00000 n \<newline>trailer\<newline><<\<newline>'' @
       ''/Size 4\<newline>/Root 3 0 R\<newline>/Info 2 0 R\<newline>'' @
       ''>>\<newline>startxref\<newline>138\<newline>%%EOF\<newline>''"

definition after_second_write :: pdf where
  "after_second_write =
     \<lparr>heap =
        [Object \<lparr>number = Some 0, offset = 0, generation = 65535, free = Free\<rparr>,
         Dictionary \<lparr>number = Some 1, offset = 308, generation = 0, free = InUse\<rparr>
          [(str_of ''Type'', PyStr (str_of ''/Pages'')),
           (str_of ''Kids'', Obj (Array new_header [])),
           (str_of ''Count'', PyInt 0)],
         Dictionary \<lparr>number = Some 2, offset = 361, generation = 0, free = InUse\<rparr> [],
         Dictionary \<lparr>number = Some 3, offset = 382, generation = 0, free = InUse\<rparr>
          [(str_of ''Type'', PyStr (str_of ''/Catalog'')),
           (str_of ''Pages'', Bytes ''1 0 R'')]],
      objects = [0, 1, 2, 3], pages = 1, info = 2, catalog = 3,
      current_position = 586, xref_position = Some 431\<rparr>"

definition second_output :: bytes where
  "second_output =
     ''%PDF-1.7\<newline>'' @ binary_marker @
       ''\<newline>1 0 obj\<newline><<\<newline>/Type /Pages\<newline>'' @
       ''/Kids [ ]\<newline>/Count 0\<newline>>>\<newline>endobj\<newline>'' @
       ''2 0 obj\<newline><<\<newline>>>\<newline>endobj\<newline>'' @
       ''3 0 obj\<newline><<\<newline>/Type /Catalog\<newline>'' @
       ''/Pages 1 0 R\<newline>>>\<newline>endobj\<newline>xref\<newline>'' @
       ''0 4\<newline>0000000000 65535 f \<newline>'' @
       ''0000000308 00000 n \<newline>0000000361 00000 n \<newline>'' @
       ''0000000382 00000 n \<newline>trailer\<newline><<\<newline>'' @
       ''/Size 4\<newline>/Root 3 0 R\<newline>/Info 2 0 R\<newline>'' @
       ''>>\<newline>startxref\<newline>431\<newline>%%EOF\<newline>''"

text \<open>
  A document with a fifth object whose generation the caller has set to 100000, the
  document after \<open>write_pdf\<close> and the bytes written.
\<close>

definition document_of_five :: pdf where
  "document_of_five =
     (let (p, a) = new_object PDF_init (Dictionary (new_header\<lparr>generation := 100000\<rparr>) [])
      in add_object p a)"

definition after_write_of_five :: pdf where
  "after_write_of_five =
     \<lparr>heap =
        [Object \<lparr>number = Some 0, offset = 0, generation = 65535, free = Free\<rparr>,
         Dictionary \<lparr>number = Some 1, offset = 15, generation = 0, free = InUse\<rparr>
          [(str_of ''Type'', PyStr (str_of ''/Pages'')),
           (str_of ''Kids'', Obj (Array new_header [])),
           (str_of ''Count'', PyInt 0)],
         Dictionary \<lparr>number = Some 2, offset = 68, generation = 0, free = InUse\<rparr> [],
         Dictionary \<lparr>number = Some 3, offset = 89, generation = 0, free = InUse\<rparr>
          [(str_of ''Type'', PyStr (str_of ''/Catalog'')),
           (str_of ''Pages'', Bytes ''1 0 R'')],
         Dictionary \<lparr>number = Some 4, offset = 138, generation = 100000, free = InUse\<rparr> []],
      objects = [0, 1, 2, 3, 4], pages = 1, info = 2, catalog = 3,
      current_position = 340, xref_position = Some 164\<rparr>"

definition output_of_five :: bytes where
  "output_of_five =
     ''%PDF-1.7\<newline>'' @ binary_marker @
       ''\<newline>1 0 obj\<newline><<\<newline>/Type /Pages\<newline>'' @
       ''/Kids [ ]\<newline>/Count 0\<newline>>>\<newline>endobj\<newline>'' @
       ''2 0 obj\<newline><<\<newline>>>\<newline>endobj\<newline>'' @
       ''3 0 obj\<newline><<\<newline>/Type /Catalog\<newline>'' @
       ''/Pages 1 0 R\<newline>>>\<newline>endobj\<newline>'' @
       ''4 100000 obj\<newline><<\<newline>>>\<newline>endobj\<newline>'' @
       ''xref\<newline>0 5\<newline>0000000000 65535 f \<newline>'' @
       ''0000000015 00000 n \<newline>0000000068 00000 n \<newline>'' @
       ''0000000089 00000 n \<newline>0000000138 100000 n \<newline>'' @
       ''trailer\<newline><<\<newline>/Size 5\<newline>/Root 3 0 R\<newline>'' @
       ''/Info 2 0 R\<newline>>>\<newline>startxref\<newline>164\<newline>'' @
       ''%%EOF\<newline>''"

text \<open>
  A document with content: a content stream is created and registered, then a page that
  refers to it is created and added.  The document this makes, the document after
  \<open>write_pdf\<close> and the bytes written (the compressor is not used).
\<close>

definition document_with_content :: "error + pdf" where
  "document_with_content =
     (let (p1, s) = new_object PDF_init (Stream new_header [Bytes ''BT'', Bytes ''ET''] [] False);
          p2 = add_object p1 s;
          (p3, page) = new_object p2 (Dictionary new_header
             [(str_of ''Type'', PyStr (str_of ''/Page'')),
              (str_of ''Parent'', Bytes (reference (heap p2 ! pages p2))),
              (str_of ''Contents'', Bytes (reference (heap p2 ! s)))])
      in add_page p3 page)"

definition content_document :: pdf where
  "content_document =
     \<lparr>heap =
        [Object \<lparr>number = Some 0, offset = 0, generation = 65535, free = Free\<rparr>,
         Dictionary \<lparr>number = Some 1, offset = 0, generation = 0, free = InUse\<rparr>
          [(str_of ''Type'', PyStr (str_of ''/Pages'')),
           (str_of ''Kids'', Obj (Array new_header [PyInt 5, PyInt 0, PyStr (str_of ''R'')])),
           (str_of ''Count'', PyInt 1)],
         Dictionary \<lparr>number = Some 2, offset = 0, generation = 0, free = InUse\<rparr> [],
         Dictionary \<lparr>number = Some 3, offset = 0, generation = 0, free = InUse\<rparr>
          [(str_of ''Type'', PyStr (str_of ''/Catalog'')),
           (str_of ''Pages'', Bytes ''1 0 R'')],
         Stream \<lparr>number = Some 4, offset = 0, generation = 0, free = InUse\<rparr>
          [Bytes ''BT'', Bytes ''ET''] [] False,
         Dictionary \<lparr>number = Some 5, offset = 0, generation = 0, free = InUse\<rparr>
          [(str_of ''Type'', PyStr (str_of ''/Page'')),
           (str_of ''Parent'', Bytes ''1 0 R''),
           (str_of ''Contents'', Bytes ''4 0 R'')]],
      objects = [0, 1, 2, 3, 4, 5], pages = 1, info = 2, catalog = 3,
      current_position = 0, xref_position = None\<rparr>"

definition after_write_of_content :: pdf where
  "after_write_of_content =
     \<lparr>heap =
        [Object \<lparr>number = Some 0, offset = 0, generation = 65535, free = Free\<rparr>,
         Dictionary \<lparr>number = Some 1, offset = 15, generation = 0, free = InUse\<rparr>
          [(str_of ''Type'', PyStr (str_of ''/Pages'')),
           (str_of ''Kids'', Obj (Array new_header [PyInt 5, PyInt 0, PyStr (str_of ''R'')])),
           (str_of ''Count'', PyInt 1)],
         Dictionary \<lparr>number = Some 2, offset = 74, generation = 0, free = InUse\<rparr> [],
         Dictionary \<lparr>number = Some 3, offset = 95, generation = 0, free = InUse\<rparr>
          [(str_of ''Type'', PyStr (str_of ''/Catalog'')),
           (str_of ''Pages'', Bytes ''1 0 R'')],
         Stream \<lparr>number = Some 4, offset = 144, generation = 0, free = InUse\<rparr>
          [Bytes ''BT'', Bytes ''ET''] [] False,
         Dictionary \<lparr>number = Some 5, offset = 198, generation = 0, free = InUse\<rparr>
          [(str_of ''Type'', PyStr (str_of ''/Page'')),
           (str_of ''Parent'', Bytes ''1 0 R''),
           (str_of ''Contents'', Bytes ''4 0 R'')]],
      objects = [0, 1, 2, 3, 4, 5], pages = 1, info = 2, catalog = 3,
      current_position = 456, xref_position = Some 261\<rparr>"

definition output_of_content :: bytes where
  "output_of_content =
     ''%PDF-1.7\<newline>'' @ binary_marker @
       ''\<newline>1 0 obj\<newline><<\<newline>/Type /Pages\<newline>'' @
       ''/Kids [ 5 0 R ]\<newline>/Count 1\<newline>>>\<newline>'' @
       ''endobj\<newline>2 0 obj\<newline><<\<newline>>>\<newline>'' @
       ''endobj\<newline>3 0 obj\<newline><<\<newline>/Type /Catalog\<newline>'' @
       ''/Pages 1 0 R\<newline>>>\<newline>endobj\<newline>4 0 obj\<newline>'' @
       ''<<\<newline>/Length 5\<newline>>>\<newline>stream\<newline>'' @
       ''BT\<newline>ET\<newline>endstream\<newline>endobj\<newline>'' @
       ''5 0 obj\<newline><<\<newline>/Type /Page\<newline>'' @
       ''/Parent 1 0 R\<newline>/Contents 4 0 R\<newline>>>\<newline>'' @
       ''endobj\<newline>xref\<newline>0 6\<newline>'' @
       ''0000000000 65535 f \<newline>0000000015 00000 n \<newline>'' @
       ''0000000074 00000 n \<newline>0000000095 00000 n \<newline>'' @
       ''0000000144 00000 n \<newline>0000000198 00000 n \<newline>'' @
       ''trailer\<newline><<\<newline>/Size 6\<newline>/Root 3 0 R\<newline>'' @
       ''/Info 2 0 R\<newline>>>\<newline>startxref\<newline>261\<newline>'' @
       ''%%EOF\<newline>''"

text \<open>The lengths of the rows of the cross-reference table, newline included.\<close>

definition xref_row_lengths :: "pdf \<Rightarrow> nat list" where
  "xref_row_lengths p =
     map (\<lambda>ob. length (cross_reference_line ob @ ''\<newline>'')) (object_list p)"

section \<open>Auxiliary lemmas\<close>

subsection \<open>Evaluation on concrete inputs\<close>

lemma decimal_small: "n < 10 \<Longrightarrow> decimal n = [digit_char n]"
  by (simp add: decimal.simps)

lemma decimal_large: "10 \<le> n \<Longrightarrow> decimal n = decimal (n div 10) @ [digit_char (n mod 10)]"
  by (subst decimal.simps) simp

lemma str_of_eq_iff [simp]: "str_of s = str_of t \<longleftrightarrow> s = t"
proof -
  have "inj (of_char :: char \<Rightarrow> nat)" by (rule injI) simp
  then show ?thesis unfolding str_of_def by (rule inj_map_eq_map)
qed

lemma encode_ascii_str_of:
  "encode_ascii (str_of s) =
     (if list_all (\<lambda>c. (of_char c :: nat) < 128) s then Inr s else Inl UnicodeEncodeError)"
  by (simp add: encode_ascii_def str_of_def list_all_iff comp_def)

lemmas eval_text = decimal_small decimal_large digit_char_def encode_ascii_str_of format_d_def
  zero_pad_def

subsection \<open>Sequences of results\<close>

lemma map_result_Inr_iff:
  "map_result f xs = Inr ys \<longleftrightarrow> list_all2 (\<lambda>x y. f x = Inr y) xs ys"
proof (induction xs arbitrary: ys)
  case Nil
  show ?case by auto
next
  case (Cons x xs)
  show ?case
  proof (cases "f x")
    case (Inl e)
    then show ?thesis by (auto simp: list_all2_Cons1)
  next
    case fx: (Inr y)
    show ?thesis
    proof (cases "map_result f xs")
      case (Inl e)
      with fx Cons.IH show ?thesis by (auto simp: list_all2_Cons1)
    next
      case (Inr zs)
      with fx Cons.IH show ?thesis by (auto simp: list_all2_Cons1)
    qed
  qed
qed

subsection \<open>Decimal text\<close>

lemma digit_char_decimal: "n < 10 \<Longrightarrow> is_digit (digit_char n)"
proof -
  have "\<forall>n<10. is_digit (digit_char n)"
    by (simp add: eval_nat_numeral All_less_Suc digit_char_def is_digit_def)
  then show "n < 10 \<Longrightarrow> is_digit (digit_char n)" by simp
qed

lemma decimal_digits_decimal: "decimal_digits (decimal n)"
proof (induction n rule: decimal.induct)
  case (1 n)
  show ?case
  proof (cases "n < 10")
    case True
    then show ?thesis by (simp add: decimal_small decimal_digits_def digit_char_decimal)
  next
    case False
    then have "decimal_digits (decimal (n div 10))" using 1 by simp
    moreover have "n mod 10 < 10" by simp
    ultimately show ?thesis using False
      by (simp add: decimal_large decimal_digits_def digit_char_decimal)
  qed
qed

lemma length_decimal: "n < 10 ^ k \<Longrightarrow> 0 < k \<Longrightarrow> length (decimal n) \<le> k"
proof (induction k arbitrary: n)
  case 0
  then show ?case by simp
next
  case (Suc k)
  show ?case
  proof (cases "n < 10")
    case True
    then show ?thesis by (simp add: decimal_small)
  next
    case False
    then have k: "0 < k" using Suc.prems by (cases k) auto
    have "n div 10 < 10 ^ k" using Suc.prems by (simp add: less_mult_imp_div_less mult.commute)
    then have "length (decimal (n div 10)) \<le> k" using Suc.IH k by simp
    then show ?thesis using False by (simp add: decimal_large)
  qed
qed

lemma zero_pad_digits:
  "n < 10 ^ w \<Longrightarrow> 0 < w \<Longrightarrow> length (zero_pad w n) = w \<and> decimal_digits (zero_pad w n)"
proof -
  assume a: "n < 10 ^ w" "0 < w"
  have l: "length (decimal n) \<le> w" using a by (rule length_decimal)
  have d: "decimal_digits (decimal n)" by (rule decimal_digits_decimal)
  have z: "is_digit (CHR ''0'')" by (simp add: is_digit_def)
  show ?thesis using l d z by (auto simp: zero_pad_def decimal_digits_def list_all_iff)
qed

lemma is_digit_not_minus: "is_digit c \<Longrightarrow> c \<noteq> CHR ''-'' \<and> c \<noteq> CHR ''.'' \<and> c \<noteq> CHR ''e'' \<and> c \<noteq> CHR ''E''"
  by (auto simp: is_digit_def)

lemma strip_sign_digits: "decimal_digits b \<Longrightarrow> strip_sign (b @ r) = b @ r"
  by (cases b) (auto simp: decimal_digits_def is_digit_def)

lemma integer_text_format_d: "integer_text (format_d n)"
  using decimal_digits_decimal [of "nat n"] decimal_digits_decimal [of "nat (- n)"]
    strip_sign_digits [of "decimal (nat n)" "[]"]
  by (simp add: integer_text_def format_d_def)

lemma fixed_point_text_parts:
  assumes "decimal_digits ip" "decimal_digits fp"
  shows "fixed_point_text ((if neg then ''-'' else '''') @ ip @ ''.'' @ fp)"
proof -
  have s: "strip_sign ((if neg then ''-'' else '''') @ ip @ ''.'' @ fp) = ip @ ''.'' @ fp"
    using strip_sign_digits [OF assms(1), of "''.'' @ fp"] by simp
  have nodot: "\<forall>c\<in>set ip. c \<noteq> CHR ''.''"
    using assms(1) is_digit_not_minus by (auto simp: decimal_digits_def list_all_iff)
  have t: "takeWhile (\<lambda>c. c \<noteq> CHR ''.'') (ip @ ''.'' @ fp) = ip"
    using nodot by (simp add: takeWhile_tail)
  show ?thesis
    unfolding fixed_point_text_def s Let_def t using assms by simp
qed

lemma round_half_even_error:
  assumes "0 < d"
  shows "2 * \<bar>int (round_half_even n d) * int d - int n\<bar> \<le> int d"
proof -
  define q where "q = n div d"
  define r where "r = n mod d"
  have n: "int n = int q * int d + int r"
    unfolding q_def r_def by (metis of_nat_add of_nat_mult div_mult_mod_eq)
  have r: "r < d" unfolding r_def using assms by simp
  show ?thesis
  proof (cases "d < 2 * r \<or> (2 * r = d \<and> odd q)")
    case True
    then have "round_half_even n d = q + 1"
      by (simp add: round_half_even_def Let_def q_def r_def)
    then have "int (round_half_even n d) * int d - int n = int d - int r"
      using n by (simp add: algebra_simps)
    then show ?thesis using True r by auto
  next
    case False
    then have "round_half_even n d = q"
      by (simp add: round_half_even_def Let_def q_def r_def)
    then have "int (round_half_even n d) * int d - int n = - int r"
      using n by simp
    then show ?thesis using False by auto
  qed
qed

lemma format_f_finite:
  "format_f (Finite m e) =
     (if m < 0 then ''-'' else '''') @ decimal (micro_units m e div 1000000) @ ''.''
       @ zero_pad 6 (micro_units m e mod 1000000)"
  by (simp add: Let_def)

lemma fixed_point_text_format_f: "fixed_point_text (format_f (Finite m e))"
proof -
  have "micro_units m e mod 1000000 < 10 ^ 6" by simp
  then have "decimal_digits (zero_pad 6 (micro_units m e mod 1000000))"
    using zero_pad_digits [of "micro_units m e mod 1000000" 6] by simp
  then show ?thesis
    unfolding format_f_finite
    using fixed_point_text_parts [of "decimal (micro_units m e div 1000000)"
        "zero_pad 6 (micro_units m e mod 1000000)" "m < 0"] decimal_digits_decimal
    by simp
qed


lemma not_exponent_digits: "decimal_digits b \<Longrightarrow> CHR ''e'' \<notin> set b \<and> CHR ''E'' \<notin> set b"
  using is_digit_not_minus by (auto simp: decimal_digits_def list_all_iff)

lemma format_f_no_exponent:
  "CHR ''e'' \<notin> set (format_f (Finite m e)) \<and> CHR ''E'' \<notin> set (format_f (Finite m e))"
proof -
  have "micro_units m e mod 1000000 < 10 ^ 6" by simp
  then have "decimal_digits (zero_pad 6 (micro_units m e mod 1000000))"
    using zero_pad_digits [of "micro_units m e mod 1000000" 6] by simp
  then show ?thesis
    unfolding format_f_finite
    using not_exponent_digits [of "zero_pad 6 (micro_units m e mod 1000000)"]
      not_exponent_digits [OF decimal_digits_decimal, of "micro_units m e div 1000000"]
    by simp
qed

lemma int_of_float_integral:
  assumes "is_integer (Finite m e)"
  shows "\<exists>n. int_of_float (Finite m e) = Inr n \<and>
    (if 0 \<le> e then n = m * 2 ^ nat e else n * 2 ^ nat (- e) = m)"
proof (cases "0 \<le> e")
  case True
  then show ?thesis by simp
next
  case False
  then have d: "(2::int) ^ nat (- e) dvd m" using assms by simp
  then have "2 ^ nat (- e) dvd \<bar>m\<bar>" by simp
  then have "\<bar>m\<bar> div 2 ^ nat (- e) * 2 ^ nat (- e) = \<bar>m\<bar>" by simp
  then have "sgn m * (\<bar>m\<bar> div 2 ^ nat (- e)) * 2 ^ nat (- e) = sgn m * \<bar>m\<bar>"
    by (simp add: mult.assoc)
  then show ?thesis using False by (simp add: sgn_mult_abs)
qed

subsection \<open>Dictionaries\<close>

lemma and_then_Inr_iff: "and_then r f = Inr b \<longleftrightarrow> (\<exists>x. r = Inr x \<and> f x = Inr b)"
  by (cases r) auto

lemma list_all2_image:
  "list_all2 (\<lambda>x y. \<exists>e. P x e \<and> y = f e) xs ys \<longleftrightarrow> (\<exists>es. list_all2 P xs es \<and> ys = map f es)"
proof (induction xs arbitrary: ys)
  case Nil
  show ?case by auto
next
  case (Cons x xs)
  show ?case
  proof
    assume "list_all2 (\<lambda>x y. \<exists>e. P x e \<and> y = f e) (x # xs) ys"
    then obtain y ys' e where y: "ys = y # ys'" "P x e" "y = f e"
      "list_all2 (\<lambda>x y. \<exists>e. P x e \<and> y = f e) xs ys'"
      by (auto simp: list_all2_Cons1)
    then obtain es where "list_all2 P xs es" "ys' = map f es" using Cons.IH by blast
    then have "list_all2 P (x # xs) (e # es) \<and> ys = map f (e # es)" using y by simp
    then show "\<exists>es. list_all2 P (x # xs) es \<and> ys = map f es" by blast
  next
    assume "\<exists>es. list_all2 P (x # xs) es \<and> ys = map f es"
    then obtain es where es: "list_all2 P (x # xs) es" "ys = map f es" by blast
    then obtain e es' where e: "es = e # es'" "P x e" "list_all2 P xs es'"
      by (auto simp: list_all2_Cons1)
    then have "list_all2 (\<lambda>x y. \<exists>e. P x e \<and> y = f e) xs (map f es')" using Cons.IH by blast
    then show "list_all2 (\<lambda>x y. \<exists>e. P x e \<and> y = f e) (x # xs) ys"
      using e es by auto
  qed
qed

lemma entry_Inr_iff:
  "(case kv of (k, v) \<Rightarrow> and_then (to_bytes z (PyStr k)) (\<lambda>kb.
      and_then (to_bytes z v) (\<lambda>vb. Inr (''/'' @ kb @ '' '' @ vb)))) = Inr ln
   \<longleftrightarrow> (\<exists>enc. entry_encoding z kv enc \<and> ln = entry_line enc)"
  by (cases kv) (auto simp: and_then_Inr_iff entry_encoding_def entry_line_def)

lemma Dictionary_data_Inr_iff:
  "Dictionary_data z d = Inr b \<longleftrightarrow>
     (\<exists>encs. list_all2 (entry_encoding z) d encs \<and>
        b = join ''\<newline>'' (''<<'' # map entry_line encs @ [''>>'']))"
proof -
  have "Dictionary_data z d = Inr b \<longleftrightarrow>
      (\<exists>ls. list_all2 (\<lambda>kv ln. \<exists>enc. entry_encoding z kv enc \<and> ln = entry_line enc) d ls \<and>
         b = join ''\<newline>'' (''<<'' # ls @ [''>>'']))"
    by (simp only: Dictionary_data.simps and_then_Inr_iff map_result_Inr_iff entry_Inr_iff)
      auto
  then show ?thesis unfolding list_all2_image by auto
qed

subsection \<open>Strings\<close>

lemma digit_char_hex: "n < 16 \<Longrightarrow> is_lower_hex (digit_char n)"
proof -
  have "\<forall>n<16. is_lower_hex (digit_char n)"
    by (simp add: eval_nat_numeral All_less_Suc digit_char_def is_lower_hex_def)
  then show "n < 16 \<Longrightarrow> is_lower_hex (digit_char n)" by simp
qed

lemma hex_lower: "list_all is_lower_hex (hex b)"
proof -
  have "\<And>c. (of_char c :: nat) div 16 < 16"
  proof -
    fix c :: char
    have "(of_char c :: nat) < 16 * 16" by simp
    then show "(of_char c :: nat) div 16 < 16" by (rule less_mult_imp_div_less)
  qed
  then show ?thesis
    by (induction b) (simp_all add: hex_def hex_byte_def digit_char_hex)
qed

lemma length_hex: "length (hex b) = 2 * length b"
  by (induction b) (simp_all add: hex_def hex_byte_def)

lemma hex_append: "hex (a @ b) = hex a @ hex b"
  by (simp add: hex_def)

lemma hex_BOM: "hex BOM_UTF16_BE = ''feff''"
  by (simp add: hex_def hex_byte_def BOM_UTF16_BE_def digit_char_def)

lemma map_char_of_str_of: "map char_of (str_of s) = s"
  unfolding str_of_def by (induction s) simp_all

lemma utf16be_char_Inr: "\<not> is_surrogate c \<Longrightarrow> \<exists>u. utf16be_char c = Inr u"
  by (simp add: utf16be_char_def)

lemma map_result_total:
  "(\<And>x. x \<in> set xs \<Longrightarrow> \<exists>y. f x = Inr y) \<Longrightarrow> \<exists>ys. map_result f xs = Inr ys"
proof (induction xs)
  case Nil
  show ?case by simp
next
  case (Cons x xs)
  obtain y where y: "f x = Inr y" using Cons.prems [of x] by auto
  obtain ys where ys: "map_result f xs = Inr ys" using Cons by auto
  show ?case using y ys by simp
qed

lemma encode_utf16be_Inr:
  assumes "\<not> list_ex is_surrogate s"
  shows "\<exists>u. encode_utf16be s = Inr u"
proof -
  have "\<And>c. c \<in> set s \<Longrightarrow> \<exists>u. utf16be_char c = Inr u"
    using assms utf16be_char_Inr by (auto simp: list_ex_iff)
  then obtain us where "map_result utf16be_char s = Inr us"
    using map_result_total [of s utf16be_char] by blast
  then show ?thesis by (simp add: encode_utf16be_def)
qed

subsection \<open>Mappings\<close>

lemma getitem_setitem_same: "getitem (setitem k v d) k = Inr v"
  by (induction d) auto

lemma getitem_setitem_other: "k' \<noteq> k \<Longrightarrow> getitem (setitem k v d) k' = getitem d k'"
  by (induction d) auto

lemma setitem_member: "(k, v) \<in> set (setitem k v d)"
  by (induction d) auto

lemma keys_setitem:
  "map fst (setitem k v d) = (if k \<in> set (map fst d) then map fst d else map fst d @ [k])"
proof (induction d)
  case Nil
  show ?case by simp
next
  case (Cons kv d)
  obtain k1 v1 where kv: "kv = (k1, v1)" by (cases kv)
  show ?case
  proof (cases "k1 = k")
    case True
    then show ?thesis by (simp add: kv)
  next
    case False
    then have "k \<in> set (map fst (kv # d)) \<longleftrightarrow> k \<in> set (map fst d)" by (auto simp: kv)
    then show ?thesis using False Cons.IH by (simp add: kv)
  qed
qed

lemma distinct_setitem: "distinct (map fst d) \<Longrightarrow> distinct (map fst (setitem k v d))"
  by (simp add: keys_setitem)

lemma list_all2_member:
  "list_all2 P xs ys \<Longrightarrow> x \<in> set xs \<Longrightarrow> \<exists>y\<in>set ys. P x y"
  by (induction rule: list_all2_induct) auto

lemma data_Stream_Inr_iff:
  "data z (Stream h toks extra c) = Inr out \<longleftrightarrow>
     (\<exists>bs eb. map_result (to_bytes z) toks = Inr bs \<and>
        Dictionary_data z
          (setitem (str_of ''Length'')
             (PyInt (int (length (if c then z (join ''\<newline>'' bs) else join ''\<newline>'' bs))))
             (if c then setitem (str_of ''Filter'') (PyStr (str_of ''/FlateDecode'')) extra
              else extra)) = Inr eb \<and>
        out = join ''\<newline>'' [eb, ''stream'',
                (if c then z (join ''\<newline>'' bs) else join ''\<newline>'' bs), ''endstream''])"
  by (simp only: data.simps and_then_Inr_iff Let_def) auto


subsection \<open>The document\<close>

lemma hdr_map_hdr [simp]: "hdr (map_hdr f ob) = f (hdr ob)"
  by (cases ob) simp_all

lemma map_hdr_map_hdr [simp]: "map_hdr f (map_hdr g ob) = map_hdr (\<lambda>h. f (g h)) ob"
  by (cases ob) simp_all

lemma map_hdr_same: "f (hdr ob) = hdr ob \<Longrightarrow> map_hdr f ob = ob"
  by (cases ob) simp_all

lemma length_object_list [simp]: "length (object_list p) = length (objects p)"
  by (simp add: object_list_def)

lemma object_list_nth: "i < length (objects p) \<Longrightarrow> object_list p ! i = heap p ! (objects p ! i)"
  by (simp add: object_list_def)

lemma PDF_init_eq:
  "PDF_init =
     \<lparr>heap =
        [Object \<lparr>number = Some 0, offset = 0, generation = 65535, free = Free\<rparr>,
         Dictionary \<lparr>number = Some 1, offset = 0, generation = 0, free = InUse\<rparr>
           [(str_of ''Type'', PyStr (str_of ''/Pages'')),
            (str_of ''Kids'', Obj (Array new_header [])),
            (str_of ''Count'', PyInt 0)],
         Dictionary \<lparr>number = Some 2, offset = 0, generation = 0, free = InUse\<rparr> [],
         Dictionary \<lparr>number = Some 3, offset = 0, generation = 0, free = InUse\<rparr>
           [(str_of ''Type'', PyStr (str_of ''/Catalog'')),
            (str_of ''Pages'', Bytes ''1 0 R'')]],
      objects = [0, 1, 2, 3], pages = 1, info = 2, catalog = 3,
      current_position = 0, xref_position = None\<rparr>"
  by (simp add: PDF_init_def new_object_def add_object_def Let_def zero_object_def new_header_def
      reference_def object_id_def decimal_small digit_char_def)

lemma numbers_new_object:
  assumes "valid_references p"
  shows "numbers (fst (new_object p ob)) = numbers p"
proof -
  have "\<forall>a\<in>set (objects p). (heap p @ [ob]) ! a = heap p ! a"
    using assms by (simp add: valid_references_def list_all_iff nth_append)
  then show ?thesis
    by (simp add: numbers_def object_list_def new_object_def)
qed

lemma numbers_add_object:
  assumes "a < length (heap p)" and "a \<notin> set (objects p)"
  shows "numbers (add_object p a) = numbers p @ [Some (length (objects p))]"
proof -
  have "\<forall>b\<in>set (objects p). (heap p)[a := x] ! b = heap p ! b" for x
    using assms(2) by (metis nth_list_update_neq)
  then show ?thesis
    using assms(1) by (simp add: numbers_def object_list_def add_object_def)
qed

lemma object_list_new_object:
  assumes "valid_references p"
  shows "object_list (add_object (fst (new_object p ob)) (snd (new_object p ob)))
     = object_list p @ [map_hdr (\<lambda>h. h\<lparr>number := Some (length (objects p))\<rparr>) ob]"
proof -
  have "\<forall>a\<in>set (objects p). (heap p @ [ob])[length (heap p) := x] ! a = heap p ! a" for x
    using assms by (auto simp: valid_references_def list_all_iff nth_append)
  then show ?thesis
    by (simp add: object_list_def new_object_def add_object_def)
qed

lemma set_pages_entry_Inr:
  assumes "set_pages_entry p k v = Inr p1"
  shows "objects p1 = objects p \<and> length (heap p1) = length (heap p) \<and>
    (\<forall>a. hdr (heap p1 ! a) = hdr (heap p ! a))"
proof (cases "heap p ! pages p")
  case (Dictionary h d)
  then have p1: "p1 = p\<lparr>heap := (heap p)[pages p := Dictionary h (setitem k v d)]\<rparr>"
    using assms by (simp add: set_pages_entry_def)
  have "hdr ((heap p)[pages p := Dictionary h (setitem k v d)] ! a) = hdr (heap p ! a)" for a
  proof (cases "a = pages p \<and> pages p < length (heap p)")
    case True
    then show ?thesis using Dictionary by simp
  next
    case False
    then show ?thesis by (auto simp: list_update_beyond not_less)
  qed
  then show ?thesis by (simp add: p1)
qed (use assms in \<open>simp_all add: set_pages_entry_def\<close>)

lemma set_pages_entry_numbers:
  assumes "set_pages_entry p k v = Inr p1"
  shows "numbers p1 = numbers p \<and> objects p1 = objects p \<and> valid_references p1 = valid_references p"
  using set_pages_entry_Inr [OF assms]
  by (simp add: numbers_def object_list_def valid_references_def)

lemma add_page_Inr:
  assumes "add_page p page = Inr p3"
  shows "\<exists>c1 p1 kids1.
    set_pages_entry p (str_of ''Count'') c1 = Inr p1 \<and>
    set_pages_entry (add_object p1 page) (str_of ''Kids'') kids1 = Inr p3"
  using assms unfolding add_page_def Let_def and_then_Inr_iff by blast

lemma valid_references_add_object:
  "valid_references p \<Longrightarrow> a < length (heap p) \<Longrightarrow> valid_references (add_object p a)"
  by (simp add: valid_references_def add_object_def)

lemma valid_references_new_object:
  "valid_references p \<Longrightarrow> valid_references (fst (new_object p ob))"
  by (auto simp: valid_references_def new_object_def list_all_iff)

lemma built_invariant:
  "built q \<Longrightarrow>
     numbered q \<and> distinct (objects q) \<and> valid_references q \<and> 4 \<le> length (objects q)"
proof (induction rule: built.induct)
  case built_init
  show ?case
    by (simp add: PDF_init_eq numbered_def numbers_def object_list_def valid_references_def
        upt_rec)
next
  case (built_new p ob)
  then show ?case
    using numbers_new_object [of p ob] valid_references_new_object [of p ob]
    by (simp add: numbered_def) (simp add: new_object_def)
next
  case (built_object p a)
  then show ?case
    using numbers_add_object [of a p] valid_references_add_object [of p a]
    by (simp add: numbered_def) (simp add: add_object_def)
next
  case (built_page p a p3)
  obtain c1 p1 kids1 where
    p1: "set_pages_entry p (str_of ''Count'') c1 = Inr p1" and
    p3: "set_pages_entry (add_object p1 a) (str_of ''Kids'') kids1 = Inr p3"
    using add_page_Inr [OF built_page.hyps(4)] by blast
  have e1: "numbers p1 = numbers p" "objects p1 = objects p"
    "valid_references p1 = valid_references p" "length (heap p1) = length (heap p)"
    using set_pages_entry_numbers [OF p1] set_pages_entry_Inr [OF p1] by simp_all
  have a: "a < length (heap p1)" "a \<notin> set (objects p1)"
    using built_page.hyps(2,3) e1 by simp_all
  have e2: "numbers (add_object p1 a) = numbers p @ [Some (length (objects p))]"
    using numbers_add_object [OF a] e1 by simp
  have v2: "valid_references (add_object p1 a)"
    using valid_references_add_object [OF _ a(1)] e1 built_page.IH by simp
  have o2: "objects (add_object p1 a) = objects p @ [a]"
    by (simp add: add_object_def e1)
  show ?case
    using set_pages_entry_numbers [OF p3] e2 v2 o2 built_page.IH built_page.hyps(3)
    by (simp add: numbered_def)
qed

text \<open>
  The sum of a float and one: exact while the significand has at most 53 bits, rounded
  beyond (\<open>2.0 ** 53 + 1\<close> is \<open>2.0 ** 53\<close>, and \<open>2.0 ** 53 + 2 + 1\<close> is \<open>2.0 ** 53 + 4\<close>).
\<close>

lemma bit_length_eval:
  "bit_length 0 = 0"
  "0 < n \<Longrightarrow> bit_length n = Suc (bit_length (n div 2))"
  by (simp_all add: bit_length.simps)

lemma round_to_double_exact:
  assumes "bit_length (nat \<bar>m\<bar>) \<le> 53" and "e < 0"
  shows "round_to_double m e = Finite m e"
proof -
  have "sgn m * \<bar>m\<bar> = m" by (simp add: mult_sgn_abs)
  then show ?thesis
    using assms by (simp add: round_to_double_def round_half_even_def Let_def)
qed

lemma plus_one_rounds:
  "plus_one (PyFloat (Finite 9007199254740992 0)) = Inr (PyFloat (Finite 4503599627370496 1))"
  "and_then (plus_one (PyFloat (Finite 9007199254740992 0))) (to_bytes z)
     = Inr ''9007199254740992''"
  "plus_one (PyFloat (Finite 9007199254740994 0)) = Inr (PyFloat (Finite 4503599627370498 1))"
  "plus_one (PyFloat (Finite 3 (- 1))) = Inr (PyFloat (Finite 5 (- 1)))"
  by (simp_all add: round_to_double_def round_half_even_def Let_def bit_length_eval eval_text)


subsection \<open>The writer\<close>

lemma lines_bytes_simps [simp]:
  "lines_bytes [] = []"
  "lines_bytes (l # ls) = l @ ''\<newline>'' @ lines_bytes ls"
  "lines_bytes (ks @ ls) = lines_bytes ks @ lines_bytes ls"
  by (simp_all add: lines_bytes_def)

lemma begins_at_append: "begins_at out k b \<Longrightarrow> begins_at (out @ rest) k b"
  by (simp add: begins_at_def)

lemma begins_at_here: "begins_at (pre @ b @ post) (length pre) b"
  by (simp add: begins_at_def)

lemma begins_at_iff: "begins_at out k b \<longleftrightarrow> (\<exists>pre post. out = pre @ b @ post \<and> length pre = k)"
proof
  assume a: "begins_at out k b"
  have "out = take k out @ drop k out" by simp
  also have "drop k out = take (length b) (drop k out) @ drop (length b) (drop k out)"
    by (rule append_take_drop_id [symmetric])
  finally have "out = take k out @ take (length b) (drop k out) @ drop (length b) (drop k out)" .
  then have "out = take k out @ b @ drop (length b) (drop k out) \<and> length (take k out) = k"
    using a by (simp add: begins_at_def)
  then show "\<exists>pre post. out = pre @ b @ post \<and> length pre = k" by blast
next
  assume "\<exists>pre post. out = pre @ b @ post \<and> length pre = k"
  then show "begins_at out k b" using begins_at_here by blast
qed

lemma write_line_pair:
  "write_line b (p, out) =
     (p\<lparr>current_position := current_position p + length b + 1\<rparr>, out @ b @ ''\<newline>'')"
  by (simp add: write_line_def)

lemma fold_write_line:
  "fold write_line ls (p, out) =
     (p\<lparr>current_position := current_position p + length (lines_bytes ls)\<rparr>,
      out @ lines_bytes ls)"
  by (induction ls arbitrary: p out) (simp_all add: write_line_pair add.assoc)

lemma split_not_Nil: "split c b \<noteq> []"
  by (induction b) (auto split: list.splits)

lemma lines_bytes_split: "lines_bytes (split (CHR ''\<newline>'') d) = d @ ''\<newline>''"
proof (induction d)
  case Nil
  show ?case by simp
next
  case (Cons x d)
  obtain l ls where s: "split (CHR ''\<newline>'') d = l # ls"
    using split_not_Nil [of "CHR ''\<newline>''" d] by (cases "split (CHR ''\<newline>'') d") auto
  show ?case using Cons by (simp add: s)
qed

lemma data_map_hdr: "data z (map_hdr f ob) = data z ob"
  by (cases ob) simp_all

lemma indirect_offset: "indirect z (map_hdr (\<lambda>h. h\<lparr>offset := k\<rparr>) ob) = indirect z ob"
  by (simp add: indirect_def object_id_def data_map_hdr)

lemma indirect_Inr_iff:
  "indirect z ob = Inr b \<longleftrightarrow>
     (\<exists>d. data z ob = Inr d \<and> b = object_id ob @ '' obj\<newline>'' @ d @ ''\<newline>endobj'')"
  by (auto simp: indirect_def and_then_Inr_iff)

lemma write_object_pair:
  "data z ob = Inr d \<Longrightarrow>
   write_object z ob (p, out) =
     Inr (p\<lparr>current_position := current_position p + length d + 1\<rparr>, out @ d @ ''\<newline>'')"
  by (simp add: write_object_def fold_write_line lines_bytes_split)

lemma write_cross_reference_table_pair:
  "write_cross_reference_table (p, out) =
     (p\<lparr>xref_position := Some (current_position p),
        current_position := current_position p + length (xref_section p)\<rparr>,
      out @ xref_section p)"
proof -
  have "fold (\<lambda>ob. write_line (cross_reference_line ob)) obs s
      = fold write_line (map cross_reference_line obs) s" for obs s
    by (simp add: fold_map comp_def)
  then show ?thesis
    by (simp add: write_cross_reference_table_def Let_def write_line_pair fold_write_line
        xref_section_def add.assoc)
qed

text \<open>The trailer dictionary holds an integer and two byte strings: it is always encoded.\<close>

lemma data_trailer_dictionary:
  "data z (trailer_dictionary p) =
     Inr (lines_bytes [''<<'', ''/Size '' @ format_d (int (length (objects p))),
            ''/Root '' @ reference (heap p ! catalog p),
            ''/Info '' @ reference (heap p ! info p)] @ ''>>'')"
  by (simp add: trailer_dictionary_def encode_ascii_str_of)

lemma trailer_dictionary_position [simp]:
  "trailer_dictionary (p\<lparr>current_position := c\<rparr>) = trailer_dictionary p"
  by (simp add: trailer_dictionary_def)

lemma write_trailer_pair:
  assumes "data z (trailer_dictionary p) = Inr d"
  shows "write_trailer z (p, out) =
     Inr (p\<lparr>current_position := current_position p
              + length (lines_bytes [''trailer'', d, ''startxref'', str_optional (xref_position p), ''%%EOF''])\<rparr>,
          out @ lines_bytes [''trailer'', d, ''startxref'', str_optional (xref_position p), ''%%EOF''])"
  using assms
  by (simp add: write_trailer_def Let_def write_line_pair write_object_pair add.assoc)

text \<open>One turn of the loop of \<open>write_body\<close>.\<close>

lemma write_body_step_pair:
  "write_body_step z i (p, out) =
     (if free (hdr (heap p ! (objects p ! i))) = Free then Inr (p, out)
      else and_then (indirect z (heap p ! (objects p ! i))) (\<lambda>b.
        Inr (p\<lparr>heap := (heap p)[objects p ! i :=
                  map_hdr (\<lambda>h. h\<lparr>offset := current_position p\<rparr>) (heap p ! (objects p ! i))],
               current_position := current_position p + length b + 1\<rparr>,
             out @ b @ ''\<newline>'')))"
proof -
  define a where "a = objects p ! i"
  define H where "H = (heap p)[a := map_hdr (\<lambda>h. h\<lparr>offset := current_position p\<rparr>) (heap p ! a)]"
  have "indirect z (H ! a) = indirect z (heap p ! a)"
  proof (cases "a < length (heap p)")
    case True
    then show ?thesis by (simp add: H_def indirect_offset)
  next
    case False
    then show ?thesis by (simp add: H_def list_update_beyond)
  qed
  then show ?thesis
    by (simp add: write_body_step_def Let_def write_line_pair a_def [symmetric] H_def [symmetric])
qed

lemma same_but_offsets_refl: "same_but_offsets H H"
proof -
  have "H ! a = map_hdr (\<lambda>h. h\<lparr>offset := offset (hdr (H ! a))\<rparr>) (H ! a)" for a
    by (rule map_hdr_same [symmetric]) simp
  then show ?thesis unfolding same_but_offsets_def by blast
qed

lemma same_but_offsets_trans:
  assumes "same_but_offsets H H1" and "same_but_offsets H1 H2"
  shows "same_but_offsets H H2"
proof -
  have "\<exists>k. H2 ! a = map_hdr (\<lambda>h. h\<lparr>offset := k\<rparr>) (H ! a)" for a
  proof -
    obtain k1 where k1: "H1 ! a = map_hdr (\<lambda>h. h\<lparr>offset := k1\<rparr>) (H ! a)"
      using assms(1) unfolding same_but_offsets_def by blast
    obtain k2 where k2: "H2 ! a = map_hdr (\<lambda>h. h\<lparr>offset := k2\<rparr>) (H1 ! a)"
      using assms(2) unfolding same_but_offsets_def by blast
    show ?thesis using k1 k2 by auto
  qed
  then show ?thesis using assms unfolding same_but_offsets_def by simp
qed

lemma same_but_offsets_update:
  "same_but_offsets H (H[a := map_hdr (\<lambda>h. h\<lparr>offset := c\<rparr>) (H ! a)])"
proof -
  have "\<exists>k. H[a := map_hdr (\<lambda>h. h\<lparr>offset := c\<rparr>) (H ! a)] ! b = map_hdr (\<lambda>h. h\<lparr>offset := k\<rparr>) (H ! b)"
    for b
  proof (cases "b = a \<and> a < length H")
    case True
    then show ?thesis by auto
  next
    case False
    have "H ! b = map_hdr (\<lambda>h. h\<lparr>offset := offset (hdr (H ! b))\<rparr>) (H ! b)"
      by (rule map_hdr_same [symmetric]) simp
    moreover have "H[a := map_hdr (\<lambda>h. h\<lparr>offset := c\<rparr>) (H ! a)] ! b = H ! b"
      using False by (auto simp: list_update_beyond not_less)
    ultimately show ?thesis by metis
  qed
  then show ?thesis unfolding same_but_offsets_def by simp
qed

lemma same_but_offsets_nth:
  assumes "same_but_offsets H H1"
  shows "free (hdr (H1 ! a)) = free (hdr (H ! a)) \<and> indirect z (H1 ! a) = indirect z (H ! a)
    \<and> generation (hdr (H1 ! a)) = generation (hdr (H ! a))
    \<and> number (hdr (H1 ! a)) = number (hdr (H ! a))
    \<and> data z (H1 ! a) = data z (H ! a) \<and> object_id (H1 ! a) = object_id (H ! a)
    \<and> reference (H1 ! a) = reference (H ! a)
    \<and> map_hdr (\<lambda>h. h\<lparr>offset := c\<rparr>) (H1 ! a) = map_hdr (\<lambda>h. h\<lparr>offset := c\<rparr>) (H ! a)"
proof -
  obtain k where "H1 ! a = map_hdr (\<lambda>h. h\<lparr>offset := k\<rparr>) (H ! a)"
    using assms unfolding same_but_offsets_def by blast
  then show ?thesis
    by (simp add: indirect_offset data_map_hdr object_id_def reference_def)
qed

text \<open>What one turn of the loop changes.\<close>

lemma write_body_step_Inr:
  assumes "write_body_step z i (p, out) = Inr (p1, mid)"
  shows "objects p1 = objects p \<and> pages p1 = pages p \<and> info p1 = info p \<and>
    catalog p1 = catalog p \<and> xref_position p1 = xref_position p \<and>
    same_but_offsets (heap p) (heap p1) \<and>
    (\<forall>a. a \<noteq> objects p ! i \<longrightarrow> heap p1 ! a = heap p ! a) \<and>
    (if free (hdr (heap p ! (objects p ! i))) = Free then p1 = p \<and> mid = out
     else (\<exists>b. indirect z (heap p ! (objects p ! i)) = Inr b \<and>
        heap p1 = (heap p)[objects p ! i :=
                  map_hdr (\<lambda>h. h\<lparr>offset := current_position p\<rparr>) (heap p ! (objects p ! i))] \<and>
        current_position p1 = current_position p + length b + 1 \<and>
        mid = out @ b @ ''\<newline>''))"
proof (cases "free (hdr (heap p ! (objects p ! i))) = Free")
  case True
  then show ?thesis
    using assms by (simp add: write_body_step_pair same_but_offsets_refl)
next
  case False
  then obtain b where b: "indirect z (heap p ! (objects p ! i)) = Inr b"
    and s: "(p1, mid) = (p\<lparr>heap := (heap p)[objects p ! i :=
                  map_hdr (\<lambda>h. h\<lparr>offset := current_position p\<rparr>) (heap p ! (objects p ! i))],
               current_position := current_position p + length b + 1\<rparr>,
             out @ b @ ''\<newline>'')"
    using assms unfolding write_body_step_pair by (auto simp: and_then_Inr_iff)
  show ?thesis
    using False b s by (simp add: same_but_offsets_update)
qed

text \<open>
  The loop returns exactly when every object of the list that is in use has an indirect
  form.
\<close>

lemma for_each_write_body_step_returns:
  "(\<exists>s. for_each (write_body_step z) js (p, out) = Inr s) \<longleftrightarrow>
   (\<forall>j\<in>set js. free (hdr (heap p ! (objects p ! j))) \<noteq> Free \<longrightarrow>
      (\<exists>b. indirect z (heap p ! (objects p ! j)) = Inr b))"
proof (induction js arbitrary: p out)
  case Nil
  show ?case by simp
next
  case (Cons i js)
  show ?case
  proof (cases "\<exists>s1. write_body_step z i (p, out) = Inr s1")
    case True
    then obtain p1 mid where s1: "write_body_step z i (p, out) = Inr (p1, mid)" by auto
    have same: "objects p1 = objects p" "same_but_offsets (heap p) (heap p1)"
      using write_body_step_Inr [OF s1] by simp_all
    have here: "free (hdr (heap p ! (objects p ! i))) \<noteq> Free \<longrightarrow>
      (\<exists>b. indirect z (heap p ! (objects p ! i)) = Inr b)"
      using write_body_step_Inr [OF s1] by auto
    have "(\<exists>s. for_each (write_body_step z) (i # js) (p, out) = Inr s)
        \<longleftrightarrow> (\<exists>s. for_each (write_body_step z) js (p1, mid) = Inr s)"
      by (simp add: s1)
    also have "\<dots> \<longleftrightarrow> (\<forall>j\<in>set js. free (hdr (heap p1 ! (objects p1 ! j))) \<noteq> Free \<longrightarrow>
        (\<exists>b. indirect z (heap p1 ! (objects p1 ! j)) = Inr b))"
      by (rule Cons.IH)
    also have "\<dots> \<longleftrightarrow> (\<forall>j\<in>set js. free (hdr (heap p ! (objects p ! j))) \<noteq> Free \<longrightarrow>
        (\<exists>b. indirect z (heap p ! (objects p ! j)) = Inr b))"
      using same_but_offsets_nth [OF same(2), of _ z] by (simp add: same(1))
    finally show ?thesis using here by auto
  next
    case none: False
    then have "\<not> (\<exists>s. for_each (write_body_step z) (i # js) (p, out) = Inr s)"
      by (auto simp: and_then_Inr_iff)
    moreover have "\<not> (free (hdr (heap p ! (objects p ! i))) \<noteq> Free \<longrightarrow>
      (\<exists>b. indirect z (heap p ! (objects p ! i)) = Inr b))"
    proof
      assume h: "free (hdr (heap p ! (objects p ! i))) \<noteq> Free \<longrightarrow>
        (\<exists>b. indirect z (heap p ! (objects p ! i)) = Inr b)"
      have "\<exists>s1. write_body_step z i (p, out) = Inr s1"
      proof (cases "free (hdr (heap p ! (objects p ! i))) = Free")
        case True
        then show ?thesis by (simp add: write_body_step_pair)
      next
        case False
        then obtain b where "indirect z (heap p ! (objects p ! i)) = Inr b" using h by blast
        then show ?thesis using False by (simp add: write_body_step_pair)
      qed
      then show False using none by simp
    qed
    ultimately show ?thesis by auto
  qed
qed

text \<open>
  What the loop has done when it returns: an object that is in use and whose reference
  the loop has met carries as its offset a position at which its indirect form begins
  (the last one, when the list refers to it more than once).
\<close>

lemma for_each_write_body_step:
  assumes "for_each (write_body_step z) js (p, out) = Inr (q, res)"
    and "current_position p = c0 + length out"
  shows "current_position q = c0 + length res \<and> objects q = objects p \<and> pages q = pages p \<and>
    info q = info p \<and> catalog q = catalog p \<and> xref_position q = xref_position p \<and>
    same_but_offsets (heap p) (heap q) \<and> (\<exists>added. res = out @ added) \<and>
    (\<forall>a. a \<notin> (\<lambda>j. objects p ! j) ` set js \<longrightarrow> heap q ! a = heap p ! a) \<and>
    (\<forall>a. free (hdr (heap p ! a)) = Free \<longrightarrow> heap q ! a = heap p ! a) \<and>
    (\<forall>j\<in>set js. objects p ! j < length (heap p) \<and> free (hdr (heap p ! (objects p ! j))) \<noteq> Free \<longrightarrow>
       (\<exists>b k. indirect z (heap p ! (objects p ! j)) = Inr b \<and>
              heap q ! (objects p ! j) = map_hdr (\<lambda>h. h\<lparr>offset := c0 + k\<rparr>) (heap p ! (objects p ! j)) \<and>
              begins_at res k b))"
  using assms
proof (induction js arbitrary: p out)
  case Nil
  then show ?case by (simp add: same_but_offsets_refl)
next
  case (Cons i js)
  obtain s1 where s1: "write_body_step z i (p, out) = Inr s1"
    and rest: "for_each (write_body_step z) js s1 = Inr (q, res)"
    using Cons.prems(1) by (auto simp: and_then_Inr_iff)
  obtain p1 mid where s1eq: "s1 = (p1, mid)" by (cases s1)
  define a where "a = objects p ! i"
  have step: "objects p1 = objects p \<and> pages p1 = pages p \<and> info p1 = info p \<and>
    catalog p1 = catalog p \<and> xref_position p1 = xref_position p \<and>
    same_but_offsets (heap p) (heap p1) \<and>
    (\<forall>b. b \<noteq> a \<longrightarrow> heap p1 ! b = heap p ! b) \<and>
    (if free (hdr (heap p ! a)) = Free then p1 = p \<and> mid = out
     else (\<exists>b. indirect z (heap p ! a) = Inr b \<and>
        heap p1 = (heap p)[a := map_hdr (\<lambda>h. h\<lparr>offset := current_position p\<rparr>) (heap p ! a)] \<and>
        current_position p1 = current_position p + length b + 1 \<and>
        mid = out @ b @ ''\<newline>''))"
    using write_body_step_Inr [OF s1 [unfolded s1eq]] unfolding a_def .
  have same1: "same_but_offsets (heap p) (heap p1)" and ob1: "objects p1 = objects p"
    using step by simp_all
  have len1: "length (heap p1) = length (heap p)"
    using same1 by (simp add: same_but_offsets_def)
  have pos1: "current_position p1 = c0 + length mid"
    using step Cons.prems(2) by (auto split: if_splits)
  have ext1: "\<exists>added. mid = out @ added"
    using step by (auto split: if_splits)
  have IH: "current_position q = c0 + length res \<and> objects q = objects p1 \<and> pages q = pages p1 \<and>
    info q = info p1 \<and> catalog q = catalog p1 \<and> xref_position q = xref_position p1 \<and>
    same_but_offsets (heap p1) (heap q) \<and> (\<exists>added. res = mid @ added) \<and>
    (\<forall>a. a \<notin> (\<lambda>j. objects p1 ! j) ` set js \<longrightarrow> heap q ! a = heap p1 ! a) \<and>
    (\<forall>a. free (hdr (heap p1 ! a)) = Free \<longrightarrow> heap q ! a = heap p1 ! a) \<and>
    (\<forall>j\<in>set js. objects p1 ! j < length (heap p1) \<and> free (hdr (heap p1 ! (objects p1 ! j))) \<noteq> Free \<longrightarrow>
       (\<exists>b k. indirect z (heap p1 ! (objects p1 ! j)) = Inr b \<and>
              heap q ! (objects p1 ! j) = map_hdr (\<lambda>h. h\<lparr>offset := c0 + k\<rparr>) (heap p1 ! (objects p1 ! j)) \<and>
              begins_at res k b))"
    using Cons.IH [OF rest [unfolded s1eq] pos1] .
  obtain added where added: "res = mid @ added" using IH by blast
  note nth1 = same_but_offsets_nth [OF same1]
  have later: "\<forall>j\<in>set js. objects p ! j < length (heap p) \<and> free (hdr (heap p ! (objects p ! j))) \<noteq> Free \<longrightarrow>
       (\<exists>b k. indirect z (heap p ! (objects p ! j)) = Inr b \<and>
              heap q ! (objects p ! j) = map_hdr (\<lambda>h. h\<lparr>offset := c0 + k\<rparr>) (heap p ! (objects p ! j)) \<and>
              begins_at res k b)"
  proof (intro ballI impI)
    fix j assume j: "j \<in> set js"
      and u: "objects p ! j < length (heap p) \<and> free (hdr (heap p ! (objects p ! j))) \<noteq> Free"
    have "objects p1 ! j < length (heap p1) \<and> free (hdr (heap p1 ! (objects p1 ! j))) \<noteq> Free"
      using u nth1 [of "objects p ! j" z] by (simp add: ob1 len1)
    then obtain b k where b: "indirect z (heap p1 ! (objects p1 ! j)) = Inr b"
      "heap q ! (objects p1 ! j) = map_hdr (\<lambda>h. h\<lparr>offset := c0 + k\<rparr>) (heap p1 ! (objects p1 ! j))"
      "begins_at res k b"
      using IH j by blast
    have "indirect z (heap p ! (objects p ! j)) = Inr b"
      using b(1) nth1 [of "objects p ! j" z] by (simp add: ob1)
    moreover have "heap q ! (objects p ! j)
        = map_hdr (\<lambda>h. h\<lparr>offset := c0 + k\<rparr>) (heap p ! (objects p ! j))"
      using b(2) nth1 [of "objects p ! j" z "c0 + k"] by (simp add: ob1)
    ultimately show "\<exists>b k. indirect z (heap p ! (objects p ! j)) = Inr b \<and>
              heap q ! (objects p ! j) = map_hdr (\<lambda>h. h\<lparr>offset := c0 + k\<rparr>) (heap p ! (objects p ! j)) \<and>
              begins_at res k b"
      using b(3) by blast
  qed
  have here: "a < length (heap p) \<and> free (hdr (heap p ! a)) \<noteq> Free \<longrightarrow>
       (\<exists>b k. indirect z (heap p ! a) = Inr b \<and>
              heap q ! a = map_hdr (\<lambda>h. h\<lparr>offset := c0 + k\<rparr>) (heap p ! a) \<and>
              begins_at res k b)"
  proof
    assume u: "a < length (heap p) \<and> free (hdr (heap p ! a)) \<noteq> Free"
    show "\<exists>b k. indirect z (heap p ! a) = Inr b \<and>
              heap q ! a = map_hdr (\<lambda>h. h\<lparr>offset := c0 + k\<rparr>) (heap p ! a) \<and>
              begins_at res k b"
    proof (cases "a \<in> (\<lambda>j. objects p ! j) ` set js")
      case True
      then obtain j where "j \<in> set js" "a = objects p ! j" by auto
      then show ?thesis using later u by auto
    next
      case False
      obtain b where b: "indirect z (heap p ! a) = Inr b"
        and h1: "heap p1 = (heap p)[a := map_hdr (\<lambda>h. h\<lparr>offset := current_position p\<rparr>) (heap p ! a)]"
        and mid: "mid = out @ b @ ''\<newline>''"
        using step u by auto
      have "heap q ! a = heap p1 ! a" using IH False by (simp add: ob1)
      then have e: "heap q ! a = map_hdr (\<lambda>h. h\<lparr>offset := c0 + length out\<rparr>) (heap p ! a)"
        using h1 u Cons.prems(2) by simp
      have "begins_at (out @ b @ (''\<newline>'' @ added)) (length out) b" by (rule begins_at_here)
      then have "begins_at res (length out) b" using added mid by simp
      then show ?thesis using b e by blast
    qed
  qed
  have unch: "\<forall>b. b \<notin> (\<lambda>j. objects p ! j) ` set (i # js) \<longrightarrow> heap q ! b = heap p ! b"
    using IH step by (simp add: ob1 a_def)
  have fr: "\<forall>b. free (hdr (heap p ! b)) = Free \<longrightarrow> heap q ! b = heap p ! b"
  proof (intro allI impI)
    fix b assume f: "free (hdr (heap p ! b)) = Free"
    have "heap p1 ! b = heap p ! b"
    proof (cases "free (hdr (heap p ! a)) = Free")
      case True
      then show ?thesis using step by simp
    next
      case False
      then have "b \<noteq> a" using f by auto
      then show ?thesis using step by simp
    qed
    then show "heap q ! b = heap p ! b" using IH f by simp
  qed
  have ext: "\<exists>added. res = out @ added" using ext1 added by auto
  have same: "same_but_offsets (heap p) (heap q)"
    using same1 IH by (blast intro: same_but_offsets_trans)
  show ?case
    using IH step ext unch fr same here later by (simp add: a_def)
qed


text \<open>\<open>write_pdf\<close> in terms of the loop.\<close>

lemma write_pdf_Inr_iff:
  "write_pdf z p = Inr (p1, out) \<longleftrightarrow>
     (\<exists>q res d.
        for_each (write_body_step z) [0..<length (objects p)]
          (p\<lparr>current_position := current_position p + length (lines_bytes [''%PDF-1.7'', binary_marker])\<rparr>,
           lines_bytes [''%PDF-1.7'', binary_marker]) = Inr (q, res) \<and>
        data z (trailer_dictionary q) = Inr d \<and>
        p1 = q\<lparr>xref_position := Some (current_position q),
               current_position := current_position q + length (xref_section q)
                 + length (lines_bytes [''trailer'', d, ''startxref'', decimal (current_position q), ''%%EOF''])\<rparr> \<and>
        out = res @ xref_section q
              @ lines_bytes [''trailer'', d, ''startxref'', decimal (current_position q), ''%%EOF''])"
proof -
  define hd where "hd = lines_bytes [''%PDF-1.7'', binary_marker]"
  define ph where "ph = p\<lparr>current_position := current_position p + length hd\<rparr>"
  have h: "write_header (p, []) = (ph, hd)"
    by (simp add: write_header_def write_line_pair ph_def hd_def)
  have oph: "objects ph = objects p" by (simp add: ph_def)
  have tail: "write_trailer z (write_cross_reference_table (q, res)) = Inr (p1, out) \<longleftrightarrow>
     (\<exists>d. data z (trailer_dictionary q) = Inr d \<and>
        p1 = q\<lparr>xref_position := Some (current_position q),
               current_position := current_position q + length (xref_section q)
                 + length (lines_bytes [''trailer'', d, ''startxref'', decimal (current_position q), ''%%EOF''])\<rparr> \<and>
        out = res @ xref_section q
              @ lines_bytes [''trailer'', d, ''startxref'', decimal (current_position q), ''%%EOF''])"
    for q res
  proof -
    obtain d where d: "data z (trailer_dictionary q) = Inr d"
      using data_trailer_dictionary by blast
    define q1 where "q1 = q\<lparr>xref_position := Some (current_position q),
        current_position := current_position q + length (xref_section q)\<rparr>"
    have d1: "data z (trailer_dictionary q1) = Inr d"
      using d by (simp add: q1_def trailer_dictionary_def)
    have x: "write_cross_reference_table (q, res) = (q1, res @ xref_section q)"
      by (simp add: write_cross_reference_table_pair q1_def)
    show ?thesis
      unfolding x write_trailer_pair [OF d1]
      using d by (auto simp: q1_def add.assoc)
  qed
  have "write_pdf z p = Inr (p1, out) \<longleftrightarrow>
      (\<exists>q res. for_each (write_body_step z) [0..<length (objects p)] (ph, hd) = Inr (q, res) \<and>
         write_trailer z (write_cross_reference_table (q, res)) = Inr (p1, out))"
    by (simp add: write_pdf_def h write_body_def and_then_Inr_iff oph)
  then show ?thesis
    unfolding tail hd_def [symmetric] ph_def [symmetric] by blast
qed

text \<open>\<open>write_pdf\<close> returns exactly when every object of the list that is in use is encoded.\<close>

lemma not_Free_iff: "f \<noteq> Free \<longleftrightarrow> f = InUse"
  by (cases f) simp_all

lemma write_pdf_returns:
  "(\<exists>p1 out. write_pdf z p = Inr (p1, out)) \<longleftrightarrow>
   (\<forall>ob\<in>set (object_list p). free (hdr ob) = InUse \<longrightarrow> (\<exists>d. data z ob = Inr d))"
proof -
  define hd where "hd = lines_bytes [''%PDF-1.7'', binary_marker]"
  define ph where "ph = p\<lparr>current_position := current_position p + length hd\<rparr>"
  have "(\<exists>p1 out. write_pdf z p = Inr (p1, out)) \<longleftrightarrow>
      (\<exists>s. for_each (write_body_step z) [0..<length (objects p)] (ph, hd) = Inr s)"
    unfolding write_pdf_Inr_iff hd_def [symmetric] ph_def [symmetric]
    using data_trailer_dictionary by fastforce
  also have "\<dots> \<longleftrightarrow> (\<forall>j\<in>set [0..<length (objects p)].
      free (hdr (heap ph ! (objects ph ! j))) \<noteq> Free \<longrightarrow>
      (\<exists>b. indirect z (heap ph ! (objects ph ! j)) = Inr b))"
    by (rule for_each_write_body_step_returns)
  also have "\<dots> \<longleftrightarrow> (\<forall>j<length (objects p).
      free (hdr (object_list p ! j)) = InUse \<longrightarrow> (\<exists>d. data z (object_list p ! j) = Inr d))"
    by (auto simp: ph_def object_list_nth not_Free_iff indirect_Inr_iff)
  also have "\<dots> \<longleftrightarrow> (\<forall>ob\<in>set (object_list p).
      free (hdr ob) = InUse \<longrightarrow> (\<exists>d. data z ob = Inr d))"
    using all_set_conv_all_nth [of "object_list p" "\<lambda>ob. free (hdr ob) = InUse \<longrightarrow> (\<exists>d. data z ob = Inr d)"]
    by simp
  finally show ?thesis .
qed

text \<open>The output of \<open>write_pdf\<close> and the document it leaves.\<close>

lemma xref_section_cong:
  "objects p = objects q \<Longrightarrow> same_but_offsets (heap p) (heap q) \<Longrightarrow> heap q = heap p1
    \<Longrightarrow> objects p1 = objects q \<Longrightarrow> xref_section q = xref_section p1"
  by (simp add: xref_section_def object_list_def)

lemma write_pdf_structure:
  assumes "write_pdf z p = Inr (p1, out)"
  shows "\<exists>body d x.
    out = lines_bytes [''%PDF-1.7'', binary_marker] @ body @ xref_section p1
            @ lines_bytes [''trailer'', d, ''startxref'', decimal x, ''%%EOF''] \<and>
    x = current_position p + length (lines_bytes [''%PDF-1.7'', binary_marker] @ body) \<and>
    xref_position p1 = Some x \<and>
    current_position p1 = current_position p + length out \<and>
    data z (trailer_dictionary p1) = Inr d \<and>
    objects p1 = objects p \<and> pages p1 = pages p \<and> info p1 = info p \<and> catalog p1 = catalog p \<and>
    same_but_offsets (heap p) (heap p1) \<and>
    (\<forall>a. free (hdr (heap p ! a)) = Free \<longrightarrow> heap p1 ! a = heap p ! a) \<and>
    (\<forall>j<length (objects p).
       objects p ! j < length (heap p) \<and> free (hdr (heap p ! (objects p ! j))) \<noteq> Free \<longrightarrow>
       (\<exists>b k. indirect z (heap p ! (objects p ! j)) = Inr b \<and>
              heap p1 ! (objects p ! j)
                = map_hdr (\<lambda>h. h\<lparr>offset := current_position p + k\<rparr>) (heap p ! (objects p ! j)) \<and>
              begins_at out k b))"
proof -
  define hd where "hd = lines_bytes [''%PDF-1.7'', binary_marker]"
  define ph where "ph = p\<lparr>current_position := current_position p + length hd\<rparr>"
  obtain q res d where
    loop: "for_each (write_body_step z) [0..<length (objects p)] (ph, hd) = Inr (q, res)" and
    d: "data z (trailer_dictionary q) = Inr d" and
    p1: "p1 = q\<lparr>xref_position := Some (current_position q),
               current_position := current_position q + length (xref_section q)
                 + length (lines_bytes [''trailer'', d, ''startxref'', decimal (current_position q), ''%%EOF''])\<rparr>" and
    out: "out = res @ xref_section q
              @ lines_bytes [''trailer'', d, ''startxref'', decimal (current_position q), ''%%EOF'']"
    using assms unfolding write_pdf_Inr_iff hd_def [symmetric] ph_def [symmetric] by blast
  have pos: "current_position ph = current_position p + length hd" by (simp add: ph_def)
  have body: "current_position q = current_position p + length res \<and> objects q = objects ph \<and>
    pages q = pages ph \<and> info q = info ph \<and> catalog q = catalog ph \<and>
    xref_position q = xref_position ph \<and>
    same_but_offsets (heap ph) (heap q) \<and> (\<exists>added. res = hd @ added) \<and>
    (\<forall>a. a \<notin> (\<lambda>j. objects ph ! j) ` set [0..<length (objects p)] \<longrightarrow> heap q ! a = heap ph ! a) \<and>
    (\<forall>a. free (hdr (heap ph ! a)) = Free \<longrightarrow> heap q ! a = heap ph ! a) \<and>
    (\<forall>j\<in>set [0..<length (objects p)].
       objects ph ! j < length (heap ph) \<and> free (hdr (heap ph ! (objects ph ! j))) \<noteq> Free \<longrightarrow>
       (\<exists>b k. indirect z (heap ph ! (objects ph ! j)) = Inr b \<and>
              heap q ! (objects ph ! j)
                = map_hdr (\<lambda>h. h\<lparr>offset := current_position p + k\<rparr>) (heap ph ! (objects ph ! j)) \<and>
              begins_at res k b))"
    using for_each_write_body_step [OF loop pos] .
  obtain added where added: "res = hd @ added" using body by blast
  have hp: "heap ph = heap p" "objects ph = objects p" "pages ph = pages p" "info ph = info p"
    "catalog ph = catalog p"
    by (simp_all add: ph_def)
  have h1: "heap p1 = heap q" "objects p1 = objects q" "pages p1 = pages q" "info p1 = info q"
    "catalog p1 = catalog q"
    by (simp_all add: p1)
  have sec: "xref_section q = xref_section p1"
    by (simp add: xref_section_def object_list_def h1)
  have td: "trailer_dictionary q = trailer_dictionary p1"
    by (simp add: trailer_dictionary_def h1)
  have cq: "current_position q = current_position p + length (hd @ added)"
    using body added by simp
  have o: "out = hd @ added @ xref_section p1
            @ lines_bytes [''trailer'', d, ''startxref'', decimal (current_position p + length (hd @ added)), ''%%EOF'']"
    using out by (simp add: added sec cq)
  have objs: "\<forall>j<length (objects p).
       objects p ! j < length (heap p) \<and> free (hdr (heap p ! (objects p ! j))) \<noteq> Free \<longrightarrow>
       (\<exists>b k. indirect z (heap p ! (objects p ! j)) = Inr b \<and>
              heap p1 ! (objects p ! j)
                = map_hdr (\<lambda>h. h\<lparr>offset := current_position p + k\<rparr>) (heap p ! (objects p ! j)) \<and>
              begins_at out k b)"
  proof (intro allI impI)
    fix j assume j: "j < length (objects p)"
      and u: "objects p ! j < length (heap p) \<and> free (hdr (heap p ! (objects p ! j))) \<noteq> Free"
    have "j \<in> set [0..<length (objects p)]" using j by simp
    then obtain b k where b: "indirect z (heap p ! (objects p ! j)) = Inr b"
        "heap q ! (objects p ! j)
           = map_hdr (\<lambda>h. h\<lparr>offset := current_position p + k\<rparr>) (heap p ! (objects p ! j))"
        "begins_at res k b"
      using body u unfolding hp by blast
    have "begins_at out k b" unfolding out using b(3) by (rule begins_at_append)
    then show "\<exists>b k. indirect z (heap p ! (objects p ! j)) = Inr b \<and>
              heap p1 ! (objects p ! j)
                = map_hdr (\<lambda>h. h\<lparr>offset := current_position p + k\<rparr>) (heap p ! (objects p ! j)) \<and>
              begins_at out k b"
      using b by (auto simp: h1)
  qed
  have xr: "xref_position p1 = Some (current_position p + length (hd @ added))"
    using cq by (simp add: p1)
  have cp: "current_position p1 = current_position p + length out"
    using body by (simp add: p1 out)
  have fr: "\<forall>a. free (hdr (heap p ! a)) = Free \<longrightarrow> heap p1 ! a = heap p ! a"
    using body by (simp add: h1 hp)
  have rest: "objects p1 = objects p \<and> pages p1 = pages p \<and> info p1 = info p \<and>
    catalog p1 = catalog p \<and> same_but_offsets (heap p) (heap p1)"
    using body by (simp add: h1 hp)
  show ?thesis
    unfolding hd_def [symmetric]
    using o xr cp d td rest fr objs by (intro exI [of _ added] exI [of _ d] exI conjI) auto
qed


subsection \<open>The writer on concrete documents\<close>

lemma replicate_eval: "0 < n \<Longrightarrow> replicate n x = x # replicate (n - 1) x"
  by (cases n) simp_all

lemmas eval_writer = write_pdf_def write_header_def write_body_def write_body_step_def
  write_cross_reference_table_def write_trailer_def write_object_def write_line_def
  trailer_dictionary_def cross_reference_line_def indirect_def reference_def object_id_def
  object_list_def binary_marker_def new_header_def Let_def upt_rec replicate_eval

lemmas eval_document = new_object_def add_object_def add_page_def get_pages_entry_def
  set_pages_entry_def number_item_def reference_def object_id_def new_header_def Let_def

lemma write_PDF_init: "write_pdf id PDF_init = Inr (after_first_write, first_output)"
  unfolding PDF_init_eq
  by (simp add: eval_writer eval_text after_first_write_def first_output_def)

lemma write_after_first_write:
  "write_pdf id after_first_write = Inr (after_second_write, second_output)"
  by (simp add: eval_writer eval_text after_first_write_def after_second_write_def
      second_output_def)

lemma document_of_five_eq:
  "document_of_five =
     \<lparr>heap = heap PDF_init @
        [Dictionary \<lparr>number = Some 4, offset = 0, generation = 100000, free = InUse\<rparr> []],
      objects = [0, 1, 2, 3, 4], pages = 1, info = 2, catalog = 3,
      current_position = 0, xref_position = None\<rparr>"
  unfolding document_of_five_def PDF_init_eq by (simp add: eval_document)

lemma write_document_of_five:
  "write_pdf id document_of_five = Inr (after_write_of_five, output_of_five)"
  unfolding document_of_five_eq PDF_init_eq
  by (simp add: eval_writer eval_text after_write_of_five_def output_of_five_def)

lemma document_with_content_eq: "document_with_content = Inr content_document"
  unfolding document_with_content_def PDF_init_eq
  by (simp add: eval_document eval_text content_document_def)

lemma write_content_document:
  "write_pdf id content_document = Inr (after_write_of_content, output_of_content)"
  by (simp add: eval_writer eval_text content_document_def after_write_of_content_def
      output_of_content_def)

text \<open>
  An object that the list refers to twice is written twice, under its second number;
  its offset is the position of the second copy, and both of its rows show it.
\<close>

lemma write_registered_twice:
  "and_then (write_pdf id registered_twice)
     (\<lambda>s. Inr (map (\<lambda>ob. offset (hdr ob)) (object_list (fst s)), xref_position (fst s),
         length (snd s)))
   = Inr ([0, 15, 68, 89, 159, 159], Some 180, 375)"
  unfolding registered_twice_def PDF_init_eq
  by (simp add: eval_document eval_writer eval_text)


subsection \<open>Rows of the cross-reference table\<close>

lemma decimal_length_lower: "10 ^ k \<le> n \<Longrightarrow> k < length (decimal n)"
proof (induction k arbitrary: n)
  case 0
  show ?case using decimal_digits_decimal [of n] by (simp add: decimal_digits_def)
next
  case (Suc k)
  then have n: "10 \<le> n"
    by (metis One_nat_def dual_order.trans le_add1 one_le_numeral one_le_power plus_1_eq_Suc
        power_Suc mult.right_neutral mult_le_mono2)
  have "10 ^ k \<le> n div 10" using Suc.prems by (simp add: less_eq_div_iff_mult_less_eq mult.commute)
  then have "k < length (decimal (n div 10))" by (rule Suc.IH)
  then show ?case using n by (simp add: decimal_large)
qed

lemma length_decimal_iff: "0 < w \<Longrightarrow> length (decimal n) \<le> w \<longleftrightarrow> n < 10 ^ w"
  using length_decimal [of n w] decimal_length_lower [of w n] by (auto simp: not_less [symmetric])

lemma length_zero_pad: "length (zero_pad w n) = max w (length (decimal n))"
  by (simp add: zero_pad_def)

lemma length_cross_reference_line:
  "length (cross_reference_line ob @ ''\<newline>'') = 20 \<longleftrightarrow>
     offset (hdr ob) < 10 ^ 10 \<and> generation (hdr ob) < 10 ^ 5"
proof -
  have f: "length (flag_char (free (hdr ob))) = 1" by (cases "free (hdr ob)") simp_all
  have "length (cross_reference_line ob @ ''\<newline>'')
      = max 10 (length (decimal (offset (hdr ob)))) + max 5 (length (decimal (generation (hdr ob)))) + 5"
    by (simp add: cross_reference_line_def length_zero_pad f)
  moreover have "length (decimal (offset (hdr ob))) \<le> 10 \<longleftrightarrow> offset (hdr ob) < 10 ^ 10"
    by (rule length_decimal_iff) simp
  moreover have "length (decimal (generation (hdr ob))) \<le> 5 \<longleftrightarrow> generation (hdr ob) < 10 ^ 5"
    by (rule length_decimal_iff) simp
  ultimately show ?thesis by (auto simp: max_def split: if_splits)
qed

lemma xref_section_row:
  assumes "i < length (objects p)"
  shows "xref_section p =
     lines_bytes (''xref'' # (''0 '' @ decimal (length (objects p)))
        # map cross_reference_line (take i (object_list p)))
     @ (cross_reference_line (object_list p ! i) @ ''\<newline>'')
     @ lines_bytes (map cross_reference_line (drop (Suc i) (object_list p)))"
proof -
  have "i < length (object_list p)" using assms by simp
  then have "object_list p = take i (object_list p) @ object_list p ! i # drop (Suc i) (object_list p)"
    by (rule id_take_nth_drop)
  then have "map cross_reference_line (object_list p)
      = map cross_reference_line (take i (object_list p)) @ cross_reference_line (object_list p ! i)
          # map cross_reference_line (drop (Suc i) (object_list p))"
    by (metis list.simps(9) map_append)
  then show ?thesis by (simp add: xref_section_def)
qed


subsection \<open>The store\<close>

lemma load_mapping_Inr_iff:
  "load_mapping st a = Inr d \<longleftrightarrow> a < length st \<and> st ! a = MappingCell d"
  by (auto simp: load_mapping_def split: cell.splits)

lemma load_list_Inr_iff:
  "load_list st a = Inr xs \<longleftrightarrow> a < length st \<and> st ! a = ListCell xs"
  by (auto simp: load_list_def split: cell.splits)

lemma store_setitem_last:
  "store_setitem (st @ [MappingCell d]) (length st) k v = Inr (st @ [MappingCell (setitem k v d)])"
  by (simp add: store_setitem_def load_mapping_def)

lemma load_mapping_last: "load_mapping (st @ [MappingCell d]) (length st) = Inr d"
  by (simp add: load_mapping_def)

lemma Stream_data_store_Inr:
  assumes "Stream_data_store z st s = Inr (b, st1)"
  shows "\<exists>toks d e. load_list st (stream_at s) = Inr toks \<and>
        load_mapping st (extra_at s) = Inr d \<and>
        data z (Stream h toks d (compress s)) = Inr b \<and>
        st1 = st @ [MappingCell d, MappingCell e]"
proof -
  have two: "st @ [MappingCell d, MappingCell e] = (st @ [MappingCell d]) @ [MappingCell e]" for d e
    by simp
  have len: "Suc (length st) = length (st @ [MappingCell d])" for d
    by simp
  show ?thesis
    using assms unfolding Stream_data_store_def data_Stream_Inr_iff
    by (cases "compress s")
      (auto simp: and_then_Inr_iff allocate_def Let_def load_mapping_last
        two len store_setitem_last simp del: append_assoc length_append_singleton Dictionary_data.simps)
qed

lemma Stream_data_store_returns:
  assumes "load_list st (stream_at s) = Inr toks"
    and "load_mapping st (extra_at s) = Inr d"
    and "data z (Stream h toks d (compress s)) = Inr b"
  shows "\<exists>st1. Stream_data_store z st s = Inr (b, st1)"
proof -
  have len: "Suc (length st) = length (st @ [MappingCell d])" for d
    by simp
  show ?thesis
    using assms unfolding Stream_data_store_def data_Stream_Inr_iff
    by (cases "compress s")
      (auto simp: and_then_Inr_iff allocate_def Let_def load_mapping_last
        len store_setitem_last simp del: append_assoc length_append_singleton Dictionary_data.simps)
qed

section \<open>The claims\<close>


subsection \<open>C1: the offsets of the cross-reference table\<close>

text \<open>
  C1.  \<open>write_line\<close> appends the line and a newline to the output and advances the
  position counter by the length of the line plus one.  On a document whose position
  counter is 0 (no earlier write) and whose list refers to existing objects, \<open>write_pdf\<close>
  returns exactly when every object of the list that is in use is encoded.  When it
  returns, the counter is the number of bytes written, and for every object \<open>i\<close> of the
  list that is in use: the object's indirect form \<open>b\<close>, which is
  \<open><number> <generation> obj\<close>, its data and \<open>endobj\<close>, stands in the output from a
  position \<open>k\<close> on; \<open>k\<close> is the offset the object holds afterwards; the row of the object
  in the cross-reference table is the zero-padded decimal of \<open>k\<close>, the generation and
  \<open>n\<close>; and this row stands in the output in the table that begins at
  \<open>xref_position\<close>, after the two head lines and the rows of the objects before \<open>i\<close>.
\<close>

theorem xref_offsets:
  assumes "current_position p = 0" and "valid_references p"
  shows "write_line content (q, sink)
      = (q\<lparr>current_position := current_position q + length content + 1\<rparr>,
         sink @ content @ ''\<newline>'') \<and>
    ((\<exists>p1 out. write_pdf z p = Inr (p1, out)) \<longleftrightarrow>
       (\<forall>ob\<in>set (object_list p). free (hdr ob) = InUse \<longrightarrow> (\<exists>d. data z ob = Inr d))) \<and>
    (\<forall>p1 out. write_pdf z p = Inr (p1, out) \<longrightarrow>
       current_position p1 = length out \<and>
       (\<forall>i<length (objects p). free (hdr (object_list p ! i)) = InUse \<longrightarrow>
          (\<exists>b d k x.
             data z (object_list p ! i) = Inr d \<and>
             indirect z (object_list p ! i) = Inr b \<and>
             b = object_id (object_list p ! i) @ '' obj\<newline>'' @ d @ ''\<newline>endobj'' \<and>
             begins_at out k b \<and>
             offset (hdr (object_list p1 ! i)) = k \<and>
             cross_reference_line (object_list p1 ! i)
               = zero_pad 10 k @ '' '' @ zero_pad 5 (generation (hdr (object_list p ! i))) @ '' n '' \<and>
             xref_position p1 = Some x \<and>
             begins_at out x (xref_section p1) \<and>
             begins_at out
               (x + length (lines_bytes (''xref'' # (''0 '' @ decimal (length (objects p)))
                       # map cross_reference_line (take i (object_list p1)))))
               (cross_reference_line (object_list p1 ! i) @ ''\<newline>''))))"
proof (intro conjI allI impI)
  show "write_line content (q, sink)
      = (q\<lparr>current_position := current_position q + length content + 1\<rparr>,
         sink @ content @ ''\<newline>'')"
    by (rule write_line_pair)
next
  show "(\<exists>p1 out. write_pdf z p = Inr (p1, out)) \<longleftrightarrow>
       (\<forall>ob\<in>set (object_list p). free (hdr ob) = InUse \<longrightarrow> (\<exists>d. data z ob = Inr d))"
    by (rule write_pdf_returns)
next
  fix p1 out assume w: "write_pdf z p = Inr (p1, out)"
  show "current_position p1 = length out"
    using write_pdf_structure [OF w] assms(1) by auto
next
  fix p1 out i
  assume w: "write_pdf z p = Inr (p1, out)" and i: "i < length (objects p)"
    and u: "free (hdr (object_list p ! i)) = InUse"
  define a where "a = objects p ! i"
  have a: "a < length (heap p)"
    using assms(2) i by (simp add: valid_references_def list_all_length a_def)
  have ob: "object_list p ! i = heap p ! a" using i by (simp add: object_list_nth a_def)
  obtain body td x where
    out: "out = lines_bytes [''%PDF-1.7'', binary_marker] @ body @ xref_section p1
            @ lines_bytes [''trailer'', td, ''startxref'', decimal x, ''%%EOF'']"
    and x: "x = current_position p + length (lines_bytes [''%PDF-1.7'', binary_marker] @ body)"
    and xr: "xref_position p1 = Some x"
    and obs: "objects p1 = objects p"
    and objs: "\<forall>j<length (objects p).
       objects p ! j < length (heap p) \<and> free (hdr (heap p ! (objects p ! j))) \<noteq> Free \<longrightarrow>
       (\<exists>b k. indirect z (heap p ! (objects p ! j)) = Inr b \<and>
              heap p1 ! (objects p ! j)
                = map_hdr (\<lambda>h. h\<lparr>offset := current_position p + k\<rparr>) (heap p ! (objects p ! j)) \<and>
              begins_at out k b)"
    using write_pdf_structure [OF w] by blast
  have "\<exists>b k. indirect z (heap p ! a) = Inr b \<and>
         heap p1 ! a = map_hdr (\<lambda>h. h\<lparr>offset := current_position p + k\<rparr>) (heap p ! a) \<and>
         begins_at out k b"
    using objs i a u unfolding a_def [symmetric] ob by (auto dest!: spec [where x = i] simp: a_def)
  then obtain b k where b: "indirect z (heap p ! a) = Inr b"
    and p1a: "heap p1 ! a = map_hdr (\<lambda>h. h\<lparr>offset := k\<rparr>) (heap p ! a)"
    and at: "begins_at out k b"
    using assms(1) by auto
  have ob1: "object_list p1 ! i = heap p1 ! a"
    using i obs by (simp add: object_list_nth a_def)
  obtain d where d: "data z (heap p ! a) = Inr d"
    and bd: "b = object_id (heap p ! a) @ '' obj\<newline>'' @ d @ ''\<newline>endobj''"
    using b unfolding indirect_Inr_iff by blast
  have off: "offset (hdr (object_list p1 ! i)) = k" by (simp add: ob1 p1a)
  have row: "cross_reference_line (object_list p1 ! i)
      = zero_pad 10 k @ '' '' @ zero_pad 5 (generation (hdr (heap p ! a))) @ '' n ''"
    using u by (simp add: cross_reference_line_def ob1 p1a ob)
  have x0: "x = length (lines_bytes [''%PDF-1.7'', binary_marker] @ body)"
    using x assms(1) by simp
  have "out = (lines_bytes [''%PDF-1.7'', binary_marker] @ body) @ xref_section p1
      @ lines_bytes [''trailer'', td, ''startxref'', decimal x, ''%%EOF'']"
    unfolding out by simp
  then have "begins_at out (length (lines_bytes [''%PDF-1.7'', binary_marker] @ body))
      (xref_section p1)"
    using begins_at_here by metis
  then have sec: "begins_at out x (xref_section p1)" by (simp add: x0)
  define L where "L = lines_bytes (''xref'' # (''0 '' @ decimal (length (objects p)))
              # map cross_reference_line (take i (object_list p1)))"
  have i1: "i < length (objects p1)" using i obs by simp
  have split_sec: "xref_section p1 = L @ (cross_reference_line (object_list p1 ! i) @ ''\<newline>'')
     @ lines_bytes (map cross_reference_line (drop (Suc i) (object_list p1)))"
    using xref_section_row [OF i1] by (simp add: L_def obs)
  have "out = ((lines_bytes [''%PDF-1.7'', binary_marker] @ body) @ L)
      @ (cross_reference_line (object_list p1 ! i) @ ''\<newline>'')
      @ (lines_bytes (map cross_reference_line (drop (Suc i) (object_list p1)))
          @ lines_bytes [''trailer'', td, ''startxref'', decimal x, ''%%EOF''])"
    unfolding out split_sec by simp
  then have "begins_at out (length ((lines_bytes [''%PDF-1.7'', binary_marker] @ body) @ L))
      (cross_reference_line (object_list p1 ! i) @ ''\<newline>'')"
    using begins_at_here by metis
  then have rowat: "begins_at out (x + length L)
      (cross_reference_line (object_list p1 ! i) @ ''\<newline>'')"
    by (simp add: x0 add.assoc)
  show "\<exists>b d k x.
             data z (object_list p ! i) = Inr d \<and>
             indirect z (object_list p ! i) = Inr b \<and>
             b = object_id (object_list p ! i) @ '' obj\<newline>'' @ d @ ''\<newline>endobj'' \<and>
             begins_at out k b \<and>
             offset (hdr (object_list p1 ! i)) = k \<and>
             cross_reference_line (object_list p1 ! i)
               = zero_pad 10 k @ '' '' @ zero_pad 5 (generation (hdr (object_list p ! i))) @ '' n '' \<and>
             xref_position p1 = Some x \<and>
             begins_at out x (xref_section p1) \<and>
             begins_at out
               (x + length (lines_bytes (''xref'' # (''0 '' @ decimal (length (objects p)))
                       # map cross_reference_line (take i (object_list p1)))))
               (cross_reference_line (object_list p1 ! i) @ ''\<newline>'')"
    using d b bd at off row xr sec rowat unfolding L_def ob by blast
qed

text \<open>
  The theorem at a document with content: the fresh document to which a content stream
  and a page have been added.  The stream is object 4; its indirect form stands at
  position 144 of the 456 bytes written.
\<close>

theorem xref_offsets_witness:
  "document_with_content = Inr content_document \<and>
   current_position content_document = 0 \<and> valid_references content_document \<and>
   write_pdf id content_document = Inr (after_write_of_content, output_of_content) \<and>
   current_position after_write_of_content = length output_of_content \<and>
   length output_of_content = 456 \<and>
   4 < length (objects content_document) \<and>
   free (hdr (object_list content_document ! 4)) = InUse \<and>
   (\<exists>b. indirect id (object_list content_document ! 4) = Inr b \<and>
      begins_at output_of_content 144 b \<and>
      cross_reference_line (object_list after_write_of_content ! 4) = ''0000000144 00000 n '')"
proof -
  have a: "write_pdf id content_document = Inr (after_write_of_content, output_of_content)"
    by (rule write_content_document)
  have b: "current_position content_document = 0" by (simp add: content_document_def)
  have v: "valid_references content_document"
    by (simp add: content_document_def valid_references_def)
  have c: "4 < length (objects content_document)" by (simp add: content_document_def)
  have d: "free (hdr (object_list content_document ! 4)) = InUse"
    by (simp add: content_document_def object_list_def)
  have e: "offset (hdr (object_list after_write_of_content ! 4)) = 144"
    by (simp add: after_write_of_content_def object_list_def)
  have f: "cross_reference_line (object_list after_write_of_content ! 4) = ''0000000144 00000 n ''"
    by (simp add: after_write_of_content_def object_list_def cross_reference_line_def eval_text
        replicate_eval)
  have g: "length output_of_content = 456"
    by (simp add: output_of_content_def binary_marker_def)
  have h: "current_position after_write_of_content = 456"
    by (simp add: after_write_of_content_def)
  have "\<forall>p1 out. write_pdf id content_document = Inr (p1, out) \<longrightarrow>
       current_position p1 = length out \<and>
       (\<forall>i<length (objects content_document).
          free (hdr (object_list content_document ! i)) = InUse \<longrightarrow>
          (\<exists>b d k x.
             data id (object_list content_document ! i) = Inr d \<and>
             indirect id (object_list content_document ! i) = Inr b \<and>
             b = object_id (object_list content_document ! i) @ '' obj\<newline>'' @ d @ ''\<newline>endobj'' \<and>
             begins_at out k b \<and>
             offset (hdr (object_list p1 ! i)) = k \<and>
             cross_reference_line (object_list p1 ! i)
               = zero_pad 10 k @ '' '' @ zero_pad 5 (generation (hdr (object_list content_document ! i))) @ '' n '' \<and>
             xref_position p1 = Some x \<and>
             begins_at out x (xref_section p1) \<and>
             begins_at out
               (x + length (lines_bytes (''xref'' # (''0 '' @ decimal (length (objects content_document)))
                       # map cross_reference_line (take i (object_list p1)))))
               (cross_reference_line (object_list p1 ! i) @ ''\<newline>'')))"
    using xref_offsets [where p = content_document and z = id, OF b v] by blast
  then have "\<exists>b k. indirect id (object_list content_document ! 4) = Inr b \<and>
      begins_at output_of_content k b \<and>
      offset (hdr (object_list after_write_of_content ! 4)) = k"
    using a c d by blast
  then show ?thesis
    using document_with_content_eq a b v c d e f g h by auto
qed


subsection \<open>C2: writing twice\<close>

text \<open>
  C2 does not hold.  \<open>write\<close> never resets \<open>current_position\<close>, so a second call on the
  same document starts counting at the length of the first output: it records larger
  offsets, and its cross-reference rows and its \<open>startxref\<close> line differ from those of
  the first output (and no longer point into the second output).  On the fresh document
  the first call writes 293 bytes with the table at 138, the second call writes the
  table position as 431.
\<close>

theorem write_twice_differs:
  "write_pdf id PDF_init = Inr (after_first_write, first_output) \<and>
   write_pdf id after_first_write = Inr (after_second_write, second_output) \<and>
   first_output \<noteq> second_output \<and>
   length first_output = 293 \<and> length second_output = 293 \<and>
   xref_position after_first_write = Some 138 \<and>
   xref_position after_second_write = Some 431 \<and>
   map (\<lambda>ob. offset (hdr ob)) (object_list after_first_write) = [0, 15, 68, 89] \<and>
   map (\<lambda>ob. offset (hdr ob)) (object_list after_second_write) = [0, 308, 361, 382]"
  using write_PDF_init write_after_first_write
  by (simp add: first_output_def second_output_def after_first_write_def after_second_write_def
      binary_marker_def object_list_def)


subsection \<open>C3: numbers\<close>

text \<open>
  C3, as amended.  For every finite float: a value that is an integer is encoded as the
  decimal digits of that integer (a minus sign first if negative), with no point and no
  fraction; a value that is not an integer is encoded in fixed-point form, an integer
  part, a point and six decimals, with no exponent, and the digits denote the value
  rounded to the nearest millionth.  Every \<open>int\<close> is encoded as its decimal digits, a
  minus sign first if negative.  The floats \<open>inf\<close>, \<open>-inf\<close> and \<open>nan\<close> are not integers
  and are encoded as \<open>inf\<close>, \<open>-inf\<close> and \<open>nan\<close>.
\<close>

theorem to_bytes_numbers:
  "(is_integer (Finite m1 e1) \<longrightarrow>
      (\<exists>n. to_bytes z (PyFloat (Finite m1 e1)) = Inr (format_d n) \<and> integer_text (format_d n) \<and>
           (if 0 \<le> e1 then n = m1 * 2 ^ nat e1 else n * 2 ^ nat (- e1) = m1))) \<and>
   (\<not> is_integer (Finite m2 e2) \<longrightarrow>
      (\<exists>b q. to_bytes z (PyFloat (Finite m2 e2)) = Inr b \<and> fixed_point_text b \<and>
           CHR ''e'' \<notin> set b \<and> CHR ''E'' \<notin> set b \<and>
           b = (if m2 < 0 then ''-'' else '''') @ decimal (q div 1000000) @ ''.''
                 @ zero_pad 6 (q mod 1000000) \<and>
           2 * \<bar>int q * 2 ^ nat (- e2) - \<bar>m2\<bar> * 1000000\<bar> \<le> 2 ^ nat (- e2))) \<and>
   to_bytes z (PyInt k) = Inr (format_d k) \<and> integer_text (format_d k) \<and>
   format_d k = (if k < 0 then ''-'' else '''') @ decimal (nat \<bar>k\<bar>) \<and>
   \<not> is_integer PosInf \<and> to_bytes z (PyFloat PosInf) = Inr ''inf'' \<and>
   \<not> is_integer NegInf \<and> to_bytes z (PyFloat NegInf) = Inr ''-inf'' \<and>
   \<not> is_integer NaN \<and> to_bytes z (PyFloat NaN) = Inr ''nan''"
proof (intro conjI impI)
  assume a: "is_integer (Finite m1 e1)"
  obtain n where n: "int_of_float (Finite m1 e1) = Inr n"
    "if 0 \<le> e1 then n = m1 * 2 ^ nat e1 else n * 2 ^ nat (- e1) = m1"
    using int_of_float_integral [OF a] by blast
  have "to_bytes z (PyFloat (Finite m1 e1)) = Inr (format_d n)"
    using a n(1) by simp
  then show "\<exists>n. to_bytes z (PyFloat (Finite m1 e1)) = Inr (format_d n) \<and> integer_text (format_d n) \<and>
           (if 0 \<le> e1 then n = m1 * 2 ^ nat e1 else n * 2 ^ nat (- e1) = m1)"
    using n(2) integer_text_format_d by blast
next
  assume a: "\<not> is_integer (Finite m2 e2)"
  then have e: "e2 < 0" by (simp split: if_splits)
  define q where "q = micro_units m2 e2"
  have q: "q = round_half_even (nat \<bar>m2\<bar> * 1000000) (2 ^ nat (- e2))"
    using e by (simp add: q_def micro_units_def)
  have "2 * \<bar>int q * int (2 ^ nat (- e2)) - int (nat \<bar>m2\<bar> * 1000000)\<bar> \<le> int (2 ^ nat (- e2))"
    unfolding q by (rule round_half_even_error) simp
  then have err: "2 * \<bar>int q * 2 ^ nat (- e2) - \<bar>m2\<bar> * 1000000\<bar> \<le> 2 ^ nat (- e2)"
    by simp
  have "to_bytes z (PyFloat (Finite m2 e2)) = Inr (format_f (Finite m2 e2))"
    using a by simp
  moreover have "format_f (Finite m2 e2) = (if m2 < 0 then ''-'' else '''') @ decimal (q div 1000000) @ ''.''
                 @ zero_pad 6 (q mod 1000000)"
    unfolding q_def by (rule format_f_finite)
  ultimately show "\<exists>b q. to_bytes z (PyFloat (Finite m2 e2)) = Inr b \<and> fixed_point_text b \<and>
           CHR ''e'' \<notin> set b \<and> CHR ''E'' \<notin> set b \<and>
           b = (if m2 < 0 then ''-'' else '''') @ decimal (q div 1000000) @ ''.''
                 @ zero_pad 6 (q mod 1000000) \<and>
           2 * \<bar>int q * 2 ^ nat (- e2) - \<bar>m2\<bar> * 1000000\<bar> \<le> 2 ^ nat (- e2)"
    using fixed_point_text_format_f [of m2 e2] format_f_no_exponent [of m2 e2] err by metis
next
  show "to_bytes z (PyInt k) = Inr (format_d k)" by simp
next
  show "integer_text (format_d k)" by (rule integer_text_format_d)
next
  show "format_d k = (if k < 0 then ''-'' else '''') @ decimal (nat \<bar>k\<bar>)"
    by (simp add: format_d_def)
qed simp_all

text \<open>The theorem at \<open>2.0\<close>, \<open>2.5\<close> and \<open>-42\<close>.\<close>

theorem to_bytes_numbers_witness:
  "is_integer (Finite 2 0) \<and> to_bytes id (PyFloat (Finite 2 0)) = Inr ''2'' \<and>
   \<not> is_integer (Finite 5 (- 1)) \<and> to_bytes id (PyFloat (Finite 5 (- 1))) = Inr ''2.500000'' \<and>
   fixed_point_text ''2.500000'' \<and> to_bytes id (PyInt (- 42)) = Inr ''-42'' \<and> integer_text ''-42''"
  using to_bytes_numbers [of 2 0 id 5 "- 1" "- 42"]
  by (simp add: eval_text micro_units_def round_half_even_def Let_def)

text \<open>
  C3 as stated fails at \<open>float('inf')\<close>: \<open>is_integer\<close> is false, and the encoder returns
  \<open>inf\<close>, which is not a fixed-point number; likewise at \<open>float('-inf')\<close> and
  \<open>float('nan')\<close>.
\<close>

theorem to_bytes_infinity_counterexample:
  "\<not> is_integer PosInf \<and> to_bytes id (PyFloat PosInf) = Inr ''inf'' \<and>
   \<not> fixed_point_text ''inf'' \<and>
   \<not> is_integer NegInf \<and> to_bytes id (PyFloat NegInf) = Inr ''-inf'' \<and>
   \<not> fixed_point_text ''-inf'' \<and>
   \<not> is_integer NaN \<and> to_bytes id (PyFloat NaN) = Inr ''nan'' \<and>
   \<not> fixed_point_text ''nan''"
  by (simp add: fixed_point_text_def decimal_digits_def is_digit_def)


subsection \<open>C4: the two encodings of a string\<close>

text \<open>
  C4, as amended.  For every \<open>String\<close>: if every code point of its text is below 128,
  \<open>data\<close> is the text's ASCII bytes in parentheses; otherwise, if no code point is a
  surrogate (\<open>U+D800\<close> to \<open>U+DFFF\<close>), \<open>data\<close> is the UTF-16BE bytes of the text after the
  byte-order mark, as lowercase hexadecimal in angle brackets, starting \<open><feff\<close>.  The
  result depends on the text only (not on the object's attributes), and in both cases
  no exception reaches the caller.
\<close>

theorem String_data_encoding:
  "(list_all (\<lambda>c. c < 128) s \<longrightarrow>
      encode_ascii s = Inr (map char_of s) \<and>
      data z (String h s) = Inr (''('' @ map char_of s @ '')'')) \<and>
   (\<not> list_all (\<lambda>c. c < 128) s \<and> \<not> list_ex is_surrogate s \<longrightarrow>
      (\<exists>u. encode_utf16be s = Inr u \<and>
           data z (String h s) = Inr (''<'' @ ''feff'' @ hex u @ ''>'') \<and>
           ''feff'' @ hex u = hex (BOM_UTF16_BE @ u) \<and>
           list_all is_lower_hex (hex (BOM_UTF16_BE @ u))))"
proof (intro conjI impI)
  assume a: "list_all (\<lambda>c. c < 128) s"
  show "encode_ascii s = Inr (map char_of s)" using a by (simp add: encode_ascii_def)
  then show "data z (String h s) = Inr (''('' @ map char_of s @ '')'')" by simp
next
  assume a: "\<not> list_all (\<lambda>c. c < 128) s \<and> \<not> list_ex is_surrogate s"
  then obtain u where u: "encode_utf16be s = Inr u" using encode_utf16be_Inr by blast
  have e: "encode_ascii s = Inl UnicodeEncodeError" using a by (simp add: encode_ascii_def)
  have "data z (String h s) = Inr (''<'' @ hex (BOM_UTF16_BE @ u) @ ''>'')"
    using e u by simp
  then have "data z (String h s) = Inr (''<'' @ ''feff'' @ hex u @ ''>'')"
    by (simp add: hex_append hex_BOM)
  moreover have "''feff'' @ hex u = hex (BOM_UTF16_BE @ u)" by (simp add: hex_append hex_BOM)
  ultimately show "\<exists>u. encode_utf16be s = Inr u \<and>
           data z (String h s) = Inr (''<'' @ ''feff'' @ hex u @ ''>'') \<and>
           ''feff'' @ hex u = hex (BOM_UTF16_BE @ u) \<and>
           list_all is_lower_hex (hex (BOM_UTF16_BE @ u))"
    using u hex_lower by blast
qed

text \<open>
  The theorem at the text \<open>hello\<close> and at the three code points \<open>U+00E9\<close>, \<open>U+0068\<close>,
  \<open>U+1F600\<close>.
\<close>

theorem String_data_encoding_witness:
  "list_all (\<lambda>c. c < 128) (str_of ''hello'') \<and>
   data id (String new_header (str_of ''hello'')) = Inr ''(hello)'' \<and>
   \<not> list_all (\<lambda>c. c < 128) [233, 104, 0x1F600 :: nat] \<and> \<not> list_ex is_surrogate [233, 104, 0x1F600 :: nat] \<and>
   data id (String new_header [233, 104, 0x1F600 :: nat]) = Inr ''<feff00e90068d83dde00>''"
proof -
  have a: "list_all (\<lambda>c. c < 128) (str_of ''hello'')" by (simp add: str_of_def)
  have b: "\<not> list_all (\<lambda>c. c < 128) [233, 104, 0x1F600 :: nat] \<and> \<not> list_ex is_surrogate [233, 104, 0x1F600 :: nat]"
    by (simp add: is_surrogate_def)
  have c: "map char_of (str_of ''hello'') = ''hello''" by (rule map_char_of_str_of)
  have d: "encode_utf16be [233, 104, 0x1F600 :: nat] = Inr u \<Longrightarrow> hex u = ''00e90068d83dde00''" for u
    by (auto simp: encode_utf16be_def utf16be_char_def is_surrogate_def unit16_def hex_def
        hex_byte_def digit_char_def)
  show ?thesis
    using String_data_encoding [of "str_of ''hello''" id new_header] a c
      String_data_encoding [of "[233, 104, 0x1F600 :: nat]" id new_header] b d
    by auto
qed

text \<open>
  C4 as stated fails at the text of the one code point \<open>U+D800\<close>: the ASCII codec raises, the fallback runs,
  and the strict UTF-16 codec raises \<open>UnicodeEncodeError\<close> inside the handler, which
  reaches the caller.
\<close>

theorem String_data_surrogate_counterexample:
  "data id (String new_header [0xD800]) = Inl UnicodeEncodeError"
  by (simp add: encode_ascii_def encode_utf16be_def utf16be_char_def is_surrogate_def)


subsection \<open>C5: the length and the filter of a stream\<close>

text \<open>
  C5.  \<open>Stream.data\<close> returns exactly when the tokens and the entries of the emitted
  dictionary are encoded, and its result is then the encoded emitted dictionary, the
  line \<open>stream\<close>, the body and the line \<open>endstream\<close>.  The body is the newline-joined
  encoded tokens, passed through the compressor when \<open>compress\<close> is set.  The emitted
  dictionary \<open>d\<close> is the caller's extra mapping with \<open>Filter\<close> stored when \<open>compress\<close> is
  set, and \<open>Length\<close> stored after it.  It holds under \<open>Length\<close> the exact number of bytes
  of the body, written as the entry \<open>/Length n\<close> in decimal; when \<open>compress\<close> is set it
  holds \<open>/FlateDecode\<close> under \<open>Filter\<close>, written as the entry \<open>/Filter /FlateDecode\<close>;
  its other keys are the caller's, and its keys are distinct when the caller's are.
\<close>

theorem Stream_data_length:
  "data z (Stream h toks extra c) = Inr out \<longleftrightarrow>
   (\<exists>bs body d encs.
     map_result (to_bytes z) toks = Inr bs \<and>
     body = (if c then z (join ''\<newline>'' bs) else join ''\<newline>'' bs) \<and>
     d = setitem (str_of ''Length'') (PyInt (int (length body)))
           (if c then setitem (str_of ''Filter'') (PyStr (str_of ''/FlateDecode'')) extra
            else extra) \<and>
     list_all2 (entry_encoding z) d encs \<and>
     out = join ''\<newline>'' (''<<'' # map entry_line encs @ [''>>''])
             @ ''\<newline>stream\<newline>'' @ body @ ''\<newline>endstream'' \<and>
     getitem d (str_of ''Length'') = Inr (PyInt (int (length body))) \<and>
     (''Length'', decimal (length body)) \<in> set encs \<and>
     (if c then getitem d (str_of ''Filter'') = Inr (PyStr (str_of ''/FlateDecode'')) \<and>
                (''Filter'', ''/FlateDecode'') \<in> set encs
      else getitem d (str_of ''Filter'') = getitem extra (str_of ''Filter'')) \<and>
     (\<forall>k. k \<noteq> str_of ''Length'' \<and> k \<noteq> str_of ''Filter'' \<longrightarrow> getitem d k = getitem extra k) \<and>
     (distinct (map fst extra) \<longrightarrow> distinct (map fst d)))"
proof
  assume returns: "data z (Stream h toks extra c) = Inr out"
  obtain bs eb where bs: "map_result (to_bytes z) toks = Inr bs"
    and eb: "Dictionary_data z
          (setitem (str_of ''Length'')
             (PyInt (int (length (if c then z (join ''\<newline>'' bs) else join ''\<newline>'' bs))))
             (if c then setitem (str_of ''Filter'') (PyStr (str_of ''/FlateDecode'')) extra
              else extra)) = Inr eb"
    and out: "out = join ''\<newline>'' [eb, ''stream'',
                (if c then z (join ''\<newline>'' bs) else join ''\<newline>'' bs), ''endstream'']"
    using returns unfolding data_Stream_Inr_iff by blast
  define body where "body = (if c then z (join ''\<newline>'' bs) else join ''\<newline>'' bs)"
  define d1 where "d1 = (if c then setitem (str_of ''Filter'') (PyStr (str_of ''/FlateDecode'')) extra
              else extra)"
  define d where "d = setitem (str_of ''Length'') (PyInt (int (length body))) d1"
  have eb': "Dictionary_data z d = Inr eb" using eb by (simp add: d_def d1_def body_def)
  then obtain encs where encs: "list_all2 (entry_encoding z) d encs"
    and ebs: "eb = join ''\<newline>'' (''<<'' # map entry_line encs @ [''>>''])"
    unfolding Dictionary_data_Inr_iff by blast
  have o: "out = join ''\<newline>'' (''<<'' # map entry_line encs @ [''>>''])
             @ ''\<newline>stream\<newline>'' @ body @ ''\<newline>endstream''"
    using out ebs by (simp add: body_def)
  have len: "getitem d (str_of ''Length'') = Inr (PyInt (int (length body)))"
    unfolding d_def by (rule getitem_setitem_same)
  have ne: "str_of ''Filter'' \<noteq> str_of ''Length''" by simp
  have "(str_of ''Length'', PyInt (int (length body))) \<in> set d"
    unfolding d_def by (rule setitem_member)
  then obtain enc where enc: "enc \<in> set encs"
    "entry_encoding z (str_of ''Length'', PyInt (int (length body))) enc"
    using list_all2_member [OF encs] by blast
  have "enc = (''Length'', decimal (length body))"
    using enc(2) by (cases enc) (simp add: entry_encoding_def encode_ascii_str_of format_d_def)
  then have lenc: "(''Length'', decimal (length body)) \<in> set encs" using enc(1) by simp
  have filt: "if c then getitem d (str_of ''Filter'') = Inr (PyStr (str_of ''/FlateDecode'')) \<and>
                (''Filter'', ''/FlateDecode'') \<in> set encs
      else getitem d (str_of ''Filter'') = getitem extra (str_of ''Filter'')"
  proof (cases c)
    case True
    have g: "getitem d (str_of ''Filter'') = Inr (PyStr (str_of ''/FlateDecode''))"
      using True ne by (simp add: d_def d1_def getitem_setitem_other getitem_setitem_same)
    have mem: "getitem e k = Inr v \<Longrightarrow> (k, v) \<in> set e" for e :: "(pystr \<times> item) list" and k v
      by (induction e) (auto split: if_splits)
    have "(str_of ''Filter'', PyStr (str_of ''/FlateDecode'')) \<in> set d" using g by (rule mem)
    then obtain fenc where fenc: "fenc \<in> set encs"
      "entry_encoding z (str_of ''Filter'', PyStr (str_of ''/FlateDecode'')) fenc"
      using list_all2_member [OF encs] by blast
    have "fenc = (''Filter'', ''/FlateDecode'')"
      using fenc(2) by (cases fenc) (simp add: entry_encoding_def encode_ascii_str_of)
    then show ?thesis using True g fenc(1) by simp
  next
    case False
    then show ?thesis using ne by (simp add: d_def d1_def getitem_setitem_other)
  qed
  have other: "\<forall>k. k \<noteq> str_of ''Length'' \<and> k \<noteq> str_of ''Filter'' \<longrightarrow> getitem d k = getitem extra k"
    by (simp add: d_def d1_def getitem_setitem_other)
  have dist: "distinct (map fst extra) \<longrightarrow> distinct (map fst d)"
    by (simp add: d_def d1_def distinct_setitem)
  have dd: "d = setitem (str_of ''Length'') (PyInt (int (length body)))
           (if c then setitem (str_of ''Filter'') (PyStr (str_of ''/FlateDecode'')) extra
            else extra)"
    by (simp add: d_def d1_def)
  show "\<exists>bs body d encs.
     map_result (to_bytes z) toks = Inr bs \<and>
     body = (if c then z (join ''\<newline>'' bs) else join ''\<newline>'' bs) \<and>
     d = setitem (str_of ''Length'') (PyInt (int (length body)))
           (if c then setitem (str_of ''Filter'') (PyStr (str_of ''/FlateDecode'')) extra
            else extra) \<and>
     list_all2 (entry_encoding z) d encs \<and>
     out = join ''\<newline>'' (''<<'' # map entry_line encs @ [''>>''])
             @ ''\<newline>stream\<newline>'' @ body @ ''\<newline>endstream'' \<and>
     getitem d (str_of ''Length'') = Inr (PyInt (int (length body))) \<and>
     (''Length'', decimal (length body)) \<in> set encs \<and>
     (if c then getitem d (str_of ''Filter'') = Inr (PyStr (str_of ''/FlateDecode'')) \<and>
                (''Filter'', ''/FlateDecode'') \<in> set encs
      else getitem d (str_of ''Filter'') = getitem extra (str_of ''Filter'')) \<and>
     (\<forall>k. k \<noteq> str_of ''Length'' \<and> k \<noteq> str_of ''Filter'' \<longrightarrow> getitem d k = getitem extra k) \<and>
     (distinct (map fst extra) \<longrightarrow> distinct (map fst d))"
    using bs body_def dd encs o len lenc filt other dist by blast
next
  assume "\<exists>bs body d encs.
     map_result (to_bytes z) toks = Inr bs \<and>
     body = (if c then z (join ''\<newline>'' bs) else join ''\<newline>'' bs) \<and>
     d = setitem (str_of ''Length'') (PyInt (int (length body)))
           (if c then setitem (str_of ''Filter'') (PyStr (str_of ''/FlateDecode'')) extra
            else extra) \<and>
     list_all2 (entry_encoding z) d encs \<and>
     out = join ''\<newline>'' (''<<'' # map entry_line encs @ [''>>''])
             @ ''\<newline>stream\<newline>'' @ body @ ''\<newline>endstream'' \<and>
     getitem d (str_of ''Length'') = Inr (PyInt (int (length body))) \<and>
     (''Length'', decimal (length body)) \<in> set encs \<and>
     (if c then getitem d (str_of ''Filter'') = Inr (PyStr (str_of ''/FlateDecode'')) \<and>
                (''Filter'', ''/FlateDecode'') \<in> set encs
      else getitem d (str_of ''Filter'') = getitem extra (str_of ''Filter'')) \<and>
     (\<forall>k. k \<noteq> str_of ''Length'' \<and> k \<noteq> str_of ''Filter'' \<longrightarrow> getitem d k = getitem extra k) \<and>
     (distinct (map fst extra) \<longrightarrow> distinct (map fst d))"
  then obtain bs encs where bs: "map_result (to_bytes z) toks = Inr bs"
    and encs: "list_all2 (entry_encoding z)
        (setitem (str_of ''Length'')
           (PyInt (int (length (if c then z (join ''\<newline>'' bs) else join ''\<newline>'' bs))))
           (if c then setitem (str_of ''Filter'') (PyStr (str_of ''/FlateDecode'')) extra
            else extra)) encs"
    and out: "out = join ''\<newline>'' (''<<'' # map entry_line encs @ [''>>''])
             @ ''\<newline>stream\<newline>''
             @ (if c then z (join ''\<newline>'' bs) else join ''\<newline>'' bs) @ ''\<newline>endstream''"
    by blast
  have "Dictionary_data z
        (setitem (str_of ''Length'')
           (PyInt (int (length (if c then z (join ''\<newline>'' bs) else join ''\<newline>'' bs))))
           (if c then setitem (str_of ''Filter'') (PyStr (str_of ''/FlateDecode'')) extra
            else extra))
      = Inr (join ''\<newline>'' (''<<'' # map entry_line encs @ [''>>'']))"
    unfolding Dictionary_data_Inr_iff using encs by blast
  moreover have "out = join ''\<newline>'' [join ''\<newline>'' (''<<'' # map entry_line encs @ [''>>'']),
      ''stream'', (if c then z (join ''\<newline>'' bs) else join ''\<newline>'' bs), ''endstream'']"
    using out by simp
  ultimately show "data z (Stream h toks extra c) = Inr out"
    unfolding data_Stream_Inr_iff using bs by blast
qed

text \<open>
  The theorem at two streams, with a compressor that reverses its input so that its
  effect shows: one with compression on and a caller's entry in the extra mapping, one
  with compression off and an integer token.
\<close>

theorem Stream_data_length_witness:
  "data rev (Stream new_header [Bytes ''BT'', Bytes ''ET'']
       [(str_of ''Type'', PyStr (str_of ''/XObject''))] True)
     = Inr ''<<\<newline>/Type /XObject\<newline>/Filter /FlateDecode\<newline>/Length 5\<newline>>>\<newline>stream\<newline>TE\<newline>TB\<newline>endstream'' \<and>
   (\<exists>bs encs.
      data rev (Stream new_header [Bytes ''BT'', Bytes ''ET'']
         [(str_of ''Type'', PyStr (str_of ''/XObject''))] True)
        = Inr (join ''\<newline>'' (''<<'' # map entry_line encs @ [''>>''])
             @ ''\<newline>stream\<newline>'' @ rev (join ''\<newline>'' bs) @ ''\<newline>endstream'') \<and>
      (''Length'', decimal (length (rev (join ''\<newline>'' bs)))) \<in> set encs \<and>
      (''Filter'', ''/FlateDecode'') \<in> set encs) \<and>
   data rev (Stream new_header [Bytes ''BT'', PyInt 12] [] False)
     = Inr ''<<\<newline>/Length 5\<newline>>>\<newline>stream\<newline>BT\<newline>12\<newline>endstream'' \<and>
   (\<exists>bs encs.
      data rev (Stream new_header [Bytes ''BT'', PyInt 12] [] False)
        = Inr (join ''\<newline>'' (''<<'' # map entry_line encs @ [''>>''])
             @ ''\<newline>stream\<newline>'' @ join ''\<newline>'' bs @ ''\<newline>endstream'') \<and>
      (''Length'', decimal (length (join ''\<newline>'' bs))) \<in> set encs)"
proof -
  have a: "data rev (Stream new_header [Bytes ''BT'', Bytes ''ET'']
       [(str_of ''Type'', PyStr (str_of ''/XObject''))] True)
     = Inr ''<<\<newline>/Type /XObject\<newline>/Filter /FlateDecode\<newline>/Length 5\<newline>>>\<newline>stream\<newline>TE\<newline>TB\<newline>endstream''"
    by (simp add: eval_text)
  have b: "data rev (Stream new_header [Bytes ''BT'', PyInt 12] [] False)
     = Inr ''<<\<newline>/Length 5\<newline>>>\<newline>stream\<newline>BT\<newline>12\<newline>endstream''"
    by (simp add: eval_text)
  have a1: "\<exists>bs encs.
      data rev (Stream new_header [Bytes ''BT'', Bytes ''ET'']
         [(str_of ''Type'', PyStr (str_of ''/XObject''))] True)
        = Inr (join ''\<newline>'' (''<<'' # map entry_line encs @ [''>>''])
             @ ''\<newline>stream\<newline>'' @ rev (join ''\<newline>'' bs) @ ''\<newline>endstream'') \<and>
      (''Length'', decimal (length (rev (join ''\<newline>'' bs)))) \<in> set encs \<and>
      (''Filter'', ''/FlateDecode'') \<in> set encs"
  proof -
    obtain bs body encs where
      body: "body = (if True then rev (join ''\<newline>'' bs) else join ''\<newline>'' bs)" and
      o: "''<<\<newline>/Type /XObject\<newline>/Filter /FlateDecode\<newline>/Length 5\<newline>>>\<newline>stream\<newline>TE\<newline>TB\<newline>endstream''
          = join ''\<newline>'' (''<<'' # map entry_line encs @ [''>>''])
             @ ''\<newline>stream\<newline>'' @ body @ ''\<newline>endstream''" and
      l: "(''Length'', decimal (length body)) \<in> set encs" and
      f: "if True then getitem
              (setitem (str_of ''Length'') (PyInt (int (length body)))
                (if True then setitem (str_of ''Filter'') (PyStr (str_of ''/FlateDecode''))
                    [(str_of ''Type'', PyStr (str_of ''/XObject''))]
                 else [(str_of ''Type'', PyStr (str_of ''/XObject''))]))
              (str_of ''Filter'') = Inr (PyStr (str_of ''/FlateDecode'')) \<and>
            (''Filter'', ''/FlateDecode'') \<in> set encs
          else getitem
              (setitem (str_of ''Length'') (PyInt (int (length body)))
                (if True then setitem (str_of ''Filter'') (PyStr (str_of ''/FlateDecode''))
                    [(str_of ''Type'', PyStr (str_of ''/XObject''))]
                 else [(str_of ''Type'', PyStr (str_of ''/XObject''))]))
              (str_of ''Filter'')
            = getitem [(str_of ''Type'', PyStr (str_of ''/XObject''))] (str_of ''Filter'')"
      using Stream_data_length [THEN iffD1, OF a] by blast
    have b1: "body = rev (join ''\<newline>'' bs)" using body by (simp only: if_True)
    have f1: "(''Filter'', ''/FlateDecode'') \<in> set encs" using f by (simp only: if_True)
    show ?thesis
      unfolding a using o l f1 unfolding b1 by blast
  qed
  have b1: "\<exists>bs encs.
      data rev (Stream new_header [Bytes ''BT'', PyInt 12] [] False)
        = Inr (join ''\<newline>'' (''<<'' # map entry_line encs @ [''>>''])
             @ ''\<newline>stream\<newline>'' @ join ''\<newline>'' bs @ ''\<newline>endstream'') \<and>
      (''Length'', decimal (length (join ''\<newline>'' bs))) \<in> set encs"
  proof -
    obtain bs body encs where
      body: "body = (if False then rev (join ''\<newline>'' bs) else join ''\<newline>'' bs)" and
      o: "''<<\<newline>/Length 5\<newline>>>\<newline>stream\<newline>BT\<newline>12\<newline>endstream''
          = join ''\<newline>'' (''<<'' # map entry_line encs @ [''>>''])
             @ ''\<newline>stream\<newline>'' @ body @ ''\<newline>endstream''" and
      l: "(''Length'', decimal (length body)) \<in> set encs"
      using Stream_data_length [THEN iffD1, OF b] by blast
    have b1: "body = join ''\<newline>'' bs" using body by (simp only: if_False)
    show ?thesis
      unfolding b using o l unfolding b1 by blast
  qed
  show ?thesis using a b a1 b1 by blast
qed


subsection \<open>C6: object numbers\<close>

text \<open>
  C6, as amended.  In the fresh document the list refers to four objects: object 0 is the
  free head (generation 65535, flag \<open>f\<close>), objects 1, 2 and 3 are the page tree, the info
  dictionary and the catalog, to which \<open>pages\<close>, \<open>info\<close> and \<open>catalog\<close> refer, and an
  object created and registered next gets number 4.  \<open>add_object\<close> assigns to the object
  the length of the list as its number and appends the reference.  When the object is
  not yet in the list, the numbers of the objects of the list stay as they are and the
  new number is the object's index; so in every document built by registering objects
  that are not yet in the list, with \<open>add_object\<close> or \<open>add_page\<close>, no object is in the
  list twice and each object's number is its index.
\<close>

theorem object_numbering:
  "object_list PDF_init =
     [Object \<lparr>number = Some 0, offset = 0, generation = 65535, free = Free\<rparr>,
      Dictionary \<lparr>number = Some 1, offset = 0, generation = 0, free = InUse\<rparr>
        [(str_of ''Type'', PyStr (str_of ''/Pages'')),
         (str_of ''Kids'', Obj (Array new_header [])),
         (str_of ''Count'', PyInt 0)],
      Dictionary \<lparr>number = Some 2, offset = 0, generation = 0, free = InUse\<rparr> [],
      Dictionary \<lparr>number = Some 3, offset = 0, generation = 0, free = InUse\<rparr>
        [(str_of ''Type'', PyStr (str_of ''/Catalog'')),
         (str_of ''Pages'', Bytes ''1 0 R'')]] \<and>
   objects PDF_init ! 1 = pages PDF_init \<and> objects PDF_init ! 2 = info PDF_init \<and>
   objects PDF_init ! 3 = catalog PDF_init \<and>
   object_list (add_object (fst (new_object PDF_init ob)) (snd (new_object PDF_init ob)))
     = object_list PDF_init @ [map_hdr (\<lambda>h. h\<lparr>number := Some 4\<rparr>) ob] \<and>
   objects (add_object p a) = objects p @ [a] \<and>
   (a < length (heap p) \<longrightarrow>
      heap (add_object p a) ! a
        = map_hdr (\<lambda>h. h\<lparr>number := Some (length (objects p))\<rparr>) (heap p ! a)) \<and>
   (a < length (heap p) \<and> a \<notin> set (objects p) \<longrightarrow>
      numbers (add_object p a) = numbers p @ [Some (length (objects p))]) \<and>
   (built q \<longrightarrow> numbered q \<and> distinct (objects q) \<and> 4 \<le> length (objects q))"
proof (intro conjI impI)
  show "object_list (add_object (fst (new_object PDF_init ob)) (snd (new_object PDF_init ob)))
     = object_list PDF_init @ [map_hdr (\<lambda>h. h\<lparr>number := Some 4\<rparr>) ob]"
  proof -
    have "valid_references PDF_init" and "length (objects PDF_init) = 4"
      unfolding PDF_init_eq by (simp_all add: valid_references_def)
    then show ?thesis
      using object_list_new_object [of PDF_init ob] by simp
  qed
next
  assume "a < length (heap p) \<and> a \<notin> set (objects p)"
  then show "numbers (add_object p a) = numbers p @ [Some (length (objects p))]"
    using numbers_add_object [of a p] by simp
next
  assume "built q"
  then show "numbered q" and "distinct (objects q)" and "4 \<le> length (objects q)"
    using built_invariant [of q] by simp_all
qed (simp_all add: PDF_init_eq object_list_def add_object_def)

text \<open>
  The theorem at the fresh document with one object created and registered
  (\<open>document_of_five\<close>).
\<close>

theorem object_numbering_witness:
  "built document_of_five \<and> numbered document_of_five \<and>
   4 < length (heap (fst (new_object PDF_init (Dictionary (new_header\<lparr>generation := 100000\<rparr>) [])))) \<and>
   4 \<notin> set (objects (fst (new_object PDF_init (Dictionary (new_header\<lparr>generation := 100000\<rparr>) [])))) \<and>
   numbers document_of_five = [Some 0, Some 1, Some 2, Some 3, Some 4]"
proof -
  define ob where "ob = Dictionary (new_header\<lparr>generation := 100000\<rparr>) []"
  define p where "p = fst (new_object PDF_init ob)"
  have s: "snd (new_object PDF_init ob) = 4"
    unfolding PDF_init_eq by (simp add: new_object_def)
  have d: "document_of_five = add_object p 4"
    using s by (simp add: document_of_five_def p_def ob_def case_prod_beta)
  have a: "4 < length (heap p)" "4 \<notin> set (objects p)"
    unfolding p_def PDF_init_eq by (simp_all add: new_object_def)
  have bp: "built p" unfolding p_def by (intro built_new built_init)
  have b: "built document_of_five"
    unfolding d using bp a by (rule built_object)
  have n: "numbered document_of_five"
    using b object_numbering [where q = document_of_five] by blast
  have np: "numbers p = [Some 0, Some 1, Some 2, Some 3]"
    unfolding p_def PDF_init_eq by (simp add: numbers_def object_list_def new_object_def)
  have lp: "length (objects p) = 4"
    unfolding p_def PDF_init_eq by (simp add: new_object_def)
  have "numbers (add_object p 4) = numbers p @ [Some (length (objects p))]"
    using a object_numbering [where p = p and a = 4] by blast
  then have "numbers document_of_five = [Some 0, Some 1, Some 2, Some 3, Some 4]"
    by (simp add: d np lp)
  then show ?thesis
    using b n a by (simp add: p_def ob_def)
qed

text \<open>
  C6 as stated fails when an object is registered twice: the second registration assigns
  the object a second number, 5, and the list refers to it at the indices 4 and 5, so the
  object at index 4 carries the number 5.
\<close>

theorem object_numbering_twice_counterexample:
  "objects registered_twice = [0, 1, 2, 3, 4, 4] \<and>
   numbers registered_twice = [Some 0, Some 1, Some 2, Some 3, Some 5, Some 5] \<and>
   number (hdr (object_list registered_twice ! 4)) = Some 5 \<and>
   \<not> numbered registered_twice"
  unfolding registered_twice_def PDF_init_eq
  by (simp add: numbered_def numbers_def object_list_def new_object_def add_object_def
      new_header_def upt_rec)


subsection \<open>C7: the encoded form of a dictionary\<close>

text \<open>
  C7.  \<open>Dictionary.data\<close> returns exactly when every key and every value can be
  encoded, and then it is \<open><<\<close>, one line per entry in insertion order made of \<open>/\<close>,
  the encoded key, a space and the encoded value, and \<open>>>\<close>, joined by newlines.  The
  dictionary with \<open>Type\<close> \<open>/Page\<close> and \<open>Count\<close> 3, in that order, encodes as
  \<open><<\n/Type /Page\n/Count 3\n>>\<close>.
\<close>

theorem Dictionary_data_layout:
  "(data z (Dictionary h d) = Inr b \<longleftrightarrow>
      (\<exists>encs. list_all2 (entry_encoding z) d encs \<and>
         b = join ''\<newline>'' (''<<'' # map entry_line encs @ [''>>'']))) \<and>
   data z (Dictionary h [(str_of ''Type'', PyStr (str_of ''/Page'')), (str_of ''Count'', PyInt 3)])
     = Inr ''<<\<newline>/Type /Page\<newline>/Count 3\<newline>>>''"
proof
  show "data z (Dictionary h d) = Inr b \<longleftrightarrow>
      (\<exists>encs. list_all2 (entry_encoding z) d encs \<and>
         b = join ''\<newline>'' (''<<'' # map entry_line encs @ [''>>'']))"
    using Dictionary_data_Inr_iff by simp
next
  show "data z (Dictionary h [(str_of ''Type'', PyStr (str_of ''/Page'')), (str_of ''Count'', PyInt 3)])
     = Inr ''<<\<newline>/Type /Page\<newline>/Count 3\<newline>>>''"
    by (simp add: eval_text)
qed

text \<open>The general statement at the dictionary of the example.\<close>

theorem Dictionary_data_layout_witness:
  "list_all2 (entry_encoding id)
     [(str_of ''Type'', PyStr (str_of ''/Page'')), (str_of ''Count'', PyInt 3)]
     [(''Type'', ''/Page''), (''Count'', ''3'')] \<and>
   data id (Dictionary new_header [(str_of ''Type'', PyStr (str_of ''/Page'')), (str_of ''Count'', PyInt 3)])
     = Inr (join ''\<newline>'' [''<<'', ''/Type /Page'', ''/Count 3'', ''>>''])"
proof -
  have a: "list_all2 (entry_encoding id)
     [(str_of ''Type'', PyStr (str_of ''/Page'')), (str_of ''Count'', PyInt 3)]
     [(''Type'', ''/Page''), (''Count'', ''3'')]"
    by (simp add: entry_encoding_def eval_text)
  have "\<exists>encs. list_all2 (entry_encoding id)
       [(str_of ''Type'', PyStr (str_of ''/Page'')), (str_of ''Count'', PyInt 3)] encs \<and>
     join ''\<newline>'' [''<<'', ''/Type /Page'', ''/Count 3'', ''>>''] =
       join ''\<newline>'' (''<<'' # map entry_line encs @ [''>>''])"
    using a by (intro exI [of _ "[(''Type'', ''/Page''), (''Count'', ''3'')]"]) (simp add: entry_line_def)
  then show ?thesis
    using a Dictionary_data_layout [of id new_header
        "[(str_of ''Type'', PyStr (str_of ''/Page'')), (str_of ''Count'', PyInt 3)]"
        "join ''\<newline>'' [''<<'', ''/Type /Page'', ''/Count 3'', ''>>'']"]
    by blast
qed


subsection \<open>C8: adding a page\<close>

text \<open>
  C8 does not hold for a page whose generation is not 0.  \<open>add_page\<close> on the fresh
  document and a newly created page of generation 2 succeeds: \<open>Count\<close> becomes 1 and
  the page is object 4, whose reference is \<open>4 2 R\<close>; but \<open>Kids\<close> receives the number 4,
  the constant 0 and \<open>R\<close>, and is encoded as \<open>[ 4 0 R ]\<close>.
\<close>

theorem add_page_generation:
  "and_then with_page_of_generation_two (\<lambda>p. get_pages_entry p (str_of ''Count''))
     = Inr (PyInt 1) \<and>
   and_then with_page_of_generation_two (\<lambda>p. Inr (object_list p ! 4))
     = Inr (Dictionary \<lparr>number = Some 4, offset = 0, generation = 2, free = InUse\<rparr> []) \<and>
   and_then with_page_of_generation_two (\<lambda>p. Inr (reference (object_list p ! 4)))
     = Inr ''4 2 R'' \<and>
   and_then with_page_of_generation_two (\<lambda>p. get_pages_entry p (str_of ''Kids''))
     = Inr (Obj (Array new_header [PyInt 4, PyInt 0, PyStr (str_of ''R'')])) \<and>
   and_then with_page_of_generation_two
       (\<lambda>p. and_then (get_pages_entry p (str_of ''Kids'')) (to_bytes id))
     = Inr ''[ 4 0 R ]''"
  unfolding with_page_of_generation_two_def PDF_init_eq
  by (simp add: eval_document object_list_def page_of_generation_two_def eval_text)


subsection \<open>C9: the cross-reference table\<close>

text \<open>
  C9, as amended.  After a full write the output is a prefix (header and body), the
  cross-reference section and the trailer, and \<open>xref_position\<close> is the position counter
  at the start of the section.  The section is the line \<open>xref\<close>, the line \<open>0 <count>\<close>
  with the number of objects of the list, and one row per object in list order, the
  free head included.  A row is the offset zero-padded to at least 10 digits, a space,
  the generation zero-padded to at least 5 digits, a space, the flag and a space; with
  its newline it is 20 bytes long exactly when the offset is below \<open>10^10\<close> and the
  generation below \<open>10^5\<close>.
\<close>

theorem xref_table_layout:
  assumes "write_pdf z p = Inr (p1, out)"
  shows "\<exists>pre tr.
    out = pre @ xref_section p1 @ ''trailer\<newline>'' @ tr \<and>
    xref_position p1 = Some (current_position p + length pre) \<and>
    length (objects p1) = length (objects p) \<and>
    xref_section p1 =
      ''xref\<newline>'' @ ''0 '' @ decimal (length (objects p)) @ ''\<newline>''
        @ concat (map (\<lambda>ob. cross_reference_line ob @ ''\<newline>'') (object_list p1)) \<and>
    (\<forall>ob\<in>set (object_list p1).
       cross_reference_line ob =
         zero_pad 10 (offset (hdr ob)) @ '' '' @ zero_pad 5 (generation (hdr ob)) @ '' ''
           @ flag_char (free (hdr ob)) @ '' '' \<and>
       length (zero_pad 10 (offset (hdr ob))) = max 10 (length (decimal (offset (hdr ob)))) \<and>
       length (zero_pad 5 (generation (hdr ob))) = max 5 (length (decimal (generation (hdr ob)))) \<and>
       decimal_digits (zero_pad 10 (offset (hdr ob))) \<and>
       decimal_digits (zero_pad 5 (generation (hdr ob))) \<and>
       (length (cross_reference_line ob @ ''\<newline>'') = 20 \<longleftrightarrow>
          offset (hdr ob) < 10 ^ 10 \<and> generation (hdr ob) < 10 ^ 5))"
proof -
  obtain body td x where
    out: "out = lines_bytes [''%PDF-1.7'', binary_marker] @ body @ xref_section p1
            @ lines_bytes [''trailer'', td, ''startxref'', decimal x, ''%%EOF'']"
    and x: "x = current_position p + length (lines_bytes [''%PDF-1.7'', binary_marker] @ body)"
    and xr: "xref_position p1 = Some x"
    and obs: "objects p1 = objects p"
    using write_pdf_structure [OF assms(1)] by blast
  have len: "length (objects p1) = length (objects p)" using obs by simp
  define pre where "pre = lines_bytes [''%PDF-1.7'', binary_marker] @ body"
  define tr where "tr = lines_bytes [td, ''startxref'', decimal x, ''%%EOF'']"
  have o: "out = pre @ xref_section p1 @ ''trailer\<newline>'' @ tr"
    unfolding out pre_def tr_def by simp
  have xp: "xref_position p1 = Some (current_position p + length pre)"
    unfolding pre_def using xr x by simp
  have sec: "xref_section p1 =
      ''xref\<newline>'' @ ''0 '' @ decimal (length (objects p)) @ ''\<newline>''
        @ concat (map (\<lambda>ob. cross_reference_line ob @ ''\<newline>'') (object_list p1))"
    by (simp add: xref_section_def lines_bytes_def len comp_def)
  have dz: "decimal_digits (zero_pad w n)" for w n
  proof -
    have "is_digit (CHR ''0'')" by (simp add: is_digit_def)
    then show ?thesis
      using decimal_digits_decimal [of n]
      by (auto simp: zero_pad_def decimal_digits_def list_all_iff)
  qed
  have rows: "\<forall>ob\<in>set (object_list p1).
       cross_reference_line ob =
         zero_pad 10 (offset (hdr ob)) @ '' '' @ zero_pad 5 (generation (hdr ob)) @ '' ''
           @ flag_char (free (hdr ob)) @ '' '' \<and>
       length (zero_pad 10 (offset (hdr ob))) = max 10 (length (decimal (offset (hdr ob)))) \<and>
       length (zero_pad 5 (generation (hdr ob))) = max 5 (length (decimal (generation (hdr ob)))) \<and>
       decimal_digits (zero_pad 10 (offset (hdr ob))) \<and>
       decimal_digits (zero_pad 5 (generation (hdr ob))) \<and>
       (length (cross_reference_line ob @ ''\<newline>'') = 20 \<longleftrightarrow>
          offset (hdr ob) < 10 ^ 10 \<and> generation (hdr ob) < 10 ^ 5)"
    using length_cross_reference_line dz
    by (simp add: cross_reference_line_def length_zero_pad)
  show ?thesis using o xp len sec rows by blast
qed

text \<open>The theorem at the fresh document: the section, and its four rows of 20 bytes.\<close>

theorem xref_table_layout_witness:
  "write_pdf id PDF_init = Inr (after_first_write, first_output) \<and>
   xref_section after_first_write =
     ''xref\<newline>0 4\<newline>0000000000 65535 f \<newline>0000000015 00000 n \<newline>0000000068 00000 n \<newline>0000000089 00000 n \<newline>'' \<and>
   xref_row_lengths after_first_write = [20, 20, 20, 20] \<and>
   (\<exists>pre tr. first_output = pre @ xref_section after_first_write @ ''trailer\<newline>'' @ tr \<and>
      xref_position after_first_write = Some (current_position PDF_init + length pre))"
proof -
  have a: "write_pdf id PDF_init = Inr (after_first_write, first_output)" by (rule write_PDF_init)
  have b: "xref_section after_first_write =
     ''xref\<newline>0 4\<newline>0000000000 65535 f \<newline>0000000015 00000 n \<newline>0000000068 00000 n \<newline>0000000089 00000 n \<newline>''"
    by (simp add: xref_section_def object_list_def after_first_write_def
        cross_reference_line_def eval_text replicate_eval)
  have c: "xref_row_lengths after_first_write = [20, 20, 20, 20]"
    by (simp add: xref_row_lengths_def object_list_def after_first_write_def
        cross_reference_line_def eval_text replicate_eval)
  show ?thesis
    using xref_table_layout [OF a] a b c by auto
qed

text \<open>
  C9 as stated fails for an object whose generation has six digits: the row of the
  fifth object of \<open>document_of_five\<close> is \<open>0000000138 100000 n\<close> and a space, 21 bytes with
  its newline.
\<close>

theorem xref_row_length_counterexample:
  "write_pdf id document_of_five = Inr (after_write_of_five, output_of_five) \<and>
   xref_row_lengths after_write_of_five = [20, 20, 20, 20, 21] \<and>
   cross_reference_line (object_list after_write_of_five ! 4) = ''0000000138 100000 n ''"
  using write_document_of_five
  by (simp add: xref_row_lengths_def object_list_def after_write_of_five_def
      cross_reference_line_def eval_text replicate_eval)


subsection \<open>C10: what encoding a stream leaves unchanged\<close>

text \<open>
  C10.  When \<open>Stream.data\<close> returns, every container that existed before the call is
  as it was, in particular the caller's extra mapping and the token list: the computed
  \<open>Filter\<close> and \<open>Length\<close> entries go into a copy.  The bytes are those of the value model
  for the tokens, the extra mapping and the switch of the instance, and a second
  evaluation on the store the first one leaves returns the same bytes.
\<close>

theorem Stream_data_frame:
  assumes "Stream_data_store z st s = Inr (b, st1)"
  shows "take (length st) st1 = st \<and>
    st1 ! extra_at s = st ! extra_at s \<and> st1 ! stream_at s = st ! stream_at s \<and>
    load_mapping st1 (extra_at s) = load_mapping st (extra_at s) \<and>
    load_list st1 (stream_at s) = load_list st (stream_at s) \<and>
    (\<exists>st2. Stream_data_store z st1 s = Inr (b, st2)) \<and>
    (\<exists>toks d. st ! stream_at s = ListCell toks \<and> st ! extra_at s = MappingCell d \<and>
       data z (Stream h toks d (compress s)) = Inr b)"
proof -
  obtain toks d e where toks: "load_list st (stream_at s) = Inr toks"
    and d: "load_mapping st (extra_at s) = Inr d"
    and b: "data z (Stream h toks d (compress s)) = Inr b"
    and st1: "st1 = st @ [MappingCell d, MappingCell e]"
    using Stream_data_store_Inr [OF assms] by blast
  have sa: "stream_at s < length st" "st ! stream_at s = ListCell toks"
    using toks by (simp_all add: load_list_Inr_iff)
  have ea: "extra_at s < length st" "st ! extra_at s = MappingCell d"
    using d by (simp_all add: load_mapping_Inr_iff)
  have t: "take (length st) st1 = st" by (simp add: st1)
  have e1: "st1 ! extra_at s = st ! extra_at s" using ea(1) by (simp add: st1 nth_append)
  have s1: "st1 ! stream_at s = st ! stream_at s" using sa(1) by (simp add: st1 nth_append)
  have lm: "load_mapping st1 (extra_at s) = Inr d"
    using ea e1 by (simp add: load_mapping_Inr_iff st1)
  have ll: "load_list st1 (stream_at s) = Inr toks"
    using sa s1 by (simp add: load_list_Inr_iff st1)
  have again: "\<exists>st2. Stream_data_store z st1 s = Inr (b, st2)"
    using ll lm b by (rule Stream_data_store_returns)
  show ?thesis
    using t e1 s1 lm ll d toks again sa(2) ea(2) b by simp
qed

text \<open>
  The theorem at a stream of two tokens whose extra mapping already holds a \<open>Length\<close>,
  compression on (the compressor left as the identity): the caller's mapping still holds
  99 after the call.
\<close>

theorem Stream_data_frame_witness:
  "Stream_data_store id
     [ListCell [Bytes ''BT'', Bytes ''ET''], MappingCell [(str_of ''Length'', PyInt 99)]]
     \<lparr>stream_at = 0, extra_at = 1, compress = True\<rparr>
   = Inr (''<<\<newline>/Length 5\<newline>/Filter /FlateDecode\<newline>>>\<newline>stream\<newline>BT\<newline>ET\<newline>endstream'',
       [ListCell [Bytes ''BT'', Bytes ''ET''], MappingCell [(str_of ''Length'', PyInt 99)],
        MappingCell [(str_of ''Length'', PyInt 99)],
        MappingCell [(str_of ''Length'', PyInt 5),
                     (str_of ''Filter'', PyStr (str_of ''/FlateDecode''))]]) \<and>
   take 2 [ListCell [Bytes ''BT'', Bytes ''ET''], MappingCell [(str_of ''Length'', PyInt 99)],
        MappingCell [(str_of ''Length'', PyInt 99)],
        MappingCell [(str_of ''Length'', PyInt 5),
                     (str_of ''Filter'', PyStr (str_of ''/FlateDecode''))]]
     = [ListCell [Bytes ''BT'', Bytes ''ET''], MappingCell [(str_of ''Length'', PyInt 99)]]"
proof -
  have a: "Stream_data_store id
     [ListCell [Bytes ''BT'', Bytes ''ET''], MappingCell [(str_of ''Length'', PyInt 99)]]
     \<lparr>stream_at = 0, extra_at = 1, compress = True\<rparr>
   = Inr (''<<\<newline>/Length 5\<newline>/Filter /FlateDecode\<newline>>>\<newline>stream\<newline>BT\<newline>ET\<newline>endstream'',
       [ListCell [Bytes ''BT'', Bytes ''ET''], MappingCell [(str_of ''Length'', PyInt 99)],
        MappingCell [(str_of ''Length'', PyInt 99)],
        MappingCell [(str_of ''Length'', PyInt 5),
                     (str_of ''Filter'', PyStr (str_of ''/FlateDecode''))]])"
    by (simp add: Stream_data_store_def allocate_def load_list_def load_mapping_def
        store_setitem_def Let_def eval_text)
  show ?thesis
    using a Stream_data_frame [OF a] by simp
qed

end
